theory Spec2Isabelle
  imports Main
begin

section \<open>Header parsers of jain-sip-js: SupportedParser, AuthorizationParser, ToParser\<close>

text \<open>
  The three parsers of the repository are embedded function by function. Each of them
  drives a lexer object through \<open>this.lexer\<close>; the lexer itself, the base class
  \<open>HeaderParser\<close>, the sub-grammars \<open>ChallengeParser\<close> and
  \<open>AddressParametersParser\<close> and the header classes \<open>Supported\<close>,
  \<open>SupportedList\<close>, \<open>Authorization\<close> and \<open>To\<close> are used by the source files
  but defined elsewhere. Their models below are marked as such.
\<close>

subsection \<open>Tokens, errors, the lexer object\<close>

text \<open>
  \<open>TokenTypes.prototype.ID\<close>, \<open>.SUPPORTED\<close>, \<open>.AUTHORIZATION\<close> and \<open>.TO\<close> are the
  token kinds the three parsers pass to \<open>headerName\<close> and \<open>match\<close>.
\<close>

datatype TokenTypes = ID | TO | AUTHORIZATION | SUPPORTED

text \<open>
  The source calls \<open>match\<close> with a token kind (\<open>match(TokenTypes.prototype.ID)\<close>) and
  with a character (\<open>match(',')\<close>, \<open>match('\n')\<close>).
\<close>

datatype expected = Kind TokenTypes | Lit char

text \<open>Modelled from the spec: the token, \<open>{kind, literal value, source offset}\<close>.\<close>

record Token =
  tokenType :: TokenTypes
  tokenValue :: string
  tokenOffset :: nat

text \<open>
  Modelled from the spec: the error taxonomy (HeaderNameMismatch, UnexpectedToken,
  UnexpectedCharacter, MalformedAddress, MalformedAuthParam, PrematureEndOfInput). A parse
  failure carries what was expected, the actual text and the input offset.
  \<open>TypeError\<close> is the error of the JavaScript runtime when a method is called on
  \<open>undefined\<close> or \<open>null\<close>.
\<close>

datatype error_kind =
  HeaderNameMismatch | UnexpectedToken | UnexpectedCharacter
  | MalformedAddress | MalformedAuthParam | PrematureEndOfInput

datatype error =
  ParseFailure error_kind expected string nat
  | TypeError

text \<open>The kind and the offset a parse failure carries.\<close>

fun errorKind :: "error \<Rightarrow> error_kind option" where
  "errorKind (ParseFailure k e a off) = Some k"
| "errorKind TypeError = None"

fun errorOffset :: "error \<Rightarrow> nat option" where
  "errorOffset (ParseFailure k e a off) = Some off"
| "errorOffset TypeError = None"

text \<open>
  Modelled from the spec: the lexer object, a character stream with a cursor and a
  selected keyword table (the context). \<open>currentMatch\<close> is the token produced by the
  last successful token match.
\<close>

record Lexer =
  buffer :: string
  ptr :: nat
  currentLexerName :: string
  currentMatch :: "Token option"

text \<open>
  Modelled from the spec: \<open>new Lexer(lexerName, buffer)\<close>, a freshly constructed lexer
  bound to a standalone input string, with the context the constructor is given and the
  cursor at the start.
\<close>

definition Lexer_new :: "string \<Rightarrow> string \<Rightarrow> Lexer" where
  "Lexer_new lexerName s =
     \<lparr>buffer = s, ptr = 0, currentLexerName = lexerName, currentMatch = None\<rparr>"

subsection \<open>Character classes\<close>

text \<open>
  Modelled from the spec: the characters of an identifier run. The spec follows the
  RFC 3261 header syntax, whose \<open>token\<close> is made of letters, digits and
  \<open>- . ! % * _ +\<close>, backquote (0x60), apostrophe (0x27) and \<open>~\<close>.
\<close>

definition isLetter :: "char \<Rightarrow> bool" where
  "isLetter c = (c \<in> set ''abcdefghijklmnopqrstuvwxyzABCDEFGHIJKLMNOPQRSTUVWXYZ'')"

definition isDigit :: "char \<Rightarrow> bool" where
  "isDigit c = (c \<in> set ''0123456789'')"

definition isIdChar :: "char \<Rightarrow> bool" where
  "isIdChar c = (isLetter c \<or> isDigit c \<or> c \<in> set ''-.!%*_+~'' \<or> c = CHR 0x60 \<or> c = CHR 0x27)"

text \<open>Modelled from the spec: linear whitespace, the space and the horizontal tab.\<close>

definition isLWS :: "char \<Rightarrow> bool" where
  "isLWS c = (c = CHR '' '' \<or> c = CHR 0x09)"

text \<open>
  Modelled from the spec: the header name is matched case-insensitively; this is the case
  folding of one ASCII character.
\<close>

definition toLowerCase :: "char \<Rightarrow> char" where
  "toLowerCase c =
     (case map_of (zip ''ABCDEFGHIJKLMNOPQRSTUVWXYZ'' ''abcdefghijklmnopqrstuvwxyz'') c of
        Some l \<Rightarrow> l
      | None \<Rightarrow> c)"

subsection \<open>The lexer operations\<close>

text \<open>
  Modelled from the spec: the keyword table of a context, which maps the case-folded
  keyword to its token kind. The constructors of the source select the context
  \<open>command_keywordLexer\<close>; its rows here are the three header names, "To",
  "Authorization" and the source's \<open>SupportedParser.prototype.SUPPORTED = "Supported"\<close>.
  No other context has a keyword for them.
\<close>

definition lexerTables :: "string \<Rightarrow> (string \<times> TokenTypes) list" where
  "lexerTables lexerName =
     (if lexerName = ''command_keywordLexer''
      then [(''to'', TO), (''authorization'', AUTHORIZATION), (''supported'', SUPPORTED)]
      else [])"

text \<open>
  Modelled from the spec: \<open>selectLexer(context)\<close> switches the active keyword table, does
  not move the cursor and does not fail.
\<close>

definition selectLexer :: "string \<Rightarrow> Lexer \<Rightarrow> Lexer" where
  "selectLexer lexerName lx = lx\<lparr>currentLexerName := lexerName\<rparr>"

text \<open>
  Modelled from the spec: \<open>lookAhead(n)\<close> peeks the character at offset \<open>n\<close> from the
  cursor without consuming. Past the end of the input there is no character (\<open>None\<close>),
  which differs from every character the parsers compare it with.
\<close>

definition lookAhead :: "nat \<Rightarrow> Lexer \<Rightarrow> char option" where
  "lookAhead n lx =
     (if ptr lx + n < length (buffer lx) then Some (buffer lx ! (ptr lx + n)) else None)"

text \<open>
  Modelled from the spec: advancing the cursor, and the input from the cursor on, which
  the operations below scan.
\<close>

definition consume :: "nat \<Rightarrow> Lexer \<Rightarrow> Lexer" where
  "consume n lx = lx\<lparr>ptr := ptr lx + n\<rparr>"

definition rest :: "Lexer \<Rightarrow> string" where
  "rest lx = drop (ptr lx) (buffer lx)"

text \<open>
  Modelled from the spec: \<open>SPorHT()\<close> consumes zero or more space or tab characters at
  the cursor.
\<close>

definition SPorHT :: "Lexer \<Rightarrow> Lexer" where
  "SPorHT lx = consume (length (takeWhile isLWS (rest lx))) lx"

text \<open>
  Modelled from the spec: the identifier run at the cursor (empty when the next character
  starts none).
\<close>

definition getNextId :: "Lexer \<Rightarrow> string" where
  "getNextId lx = takeWhile isIdChar (rest lx)"

text \<open>
  Modelled from the spec: the text an error reports as actual, the identifier run or else
  the next character.
\<close>

definition actualText :: "Lexer \<Rightarrow> string" where
  "actualText lx =
     (if getNextId lx \<noteq> [] then getNextId lx
      else case lookAhead 0 lx of None \<Rightarrow> [] | Some c \<Rightarrow> [c])"

text \<open>
  Modelled from the spec: \<open>match(expected)\<close> consumes the next character or token only if
  it equals \<open>expected\<close>, and fails otherwise with UnexpectedCharacter or UnexpectedToken
  carrying expected, actual and the offset; a failed match leaves the lexer as it was.
  A keyword is compared case-insensitively through the keyword table of the active
  context; \<open>ID\<close> accepts any non-empty identifier run. A matched token is recorded as the
  current match: the source always writes \<open>match(ID)\<close> followed by \<open>getNextToken()\<close>, and
  the spec reads that pair as "read one identifier token", so the lexeme is scanned once,
  by \<open>match\<close>.
\<close>

definition match :: "expected \<Rightarrow> Lexer \<Rightarrow> (error + unit) \<times> Lexer" where
  "match e lx =
     (case e of
        Lit c \<Rightarrow>
          if lookAhead 0 lx = Some c then (Inr (), consume 1 lx)
          else (Inl (ParseFailure UnexpectedCharacter e (actualText lx) (ptr lx)), lx)
      | Kind k \<Rightarrow>
          let id = getNextId lx in
          if id \<noteq> [] \<and> (k = ID \<or> map_of (lexerTables (currentLexerName lx)) (map toLowerCase id) = Some k)
          then (Inr (), (consume (length id) lx)
                  \<lparr>currentMatch := Some \<lparr>tokenType = k, tokenValue = id, tokenOffset = ptr lx\<rparr>\<rparr>)
          else (Inl (ParseFailure UnexpectedToken e (actualText lx) (ptr lx)), lx))"

text \<open>
  Modelled from the spec: \<open>getNextToken()\<close> returns the scanned lexeme, here the token
  recorded by the preceding \<open>match\<close> (\<open>None\<close> is JavaScript's \<open>null\<close>, when nothing was
  matched yet).
\<close>

definition getNextToken :: "Lexer \<Rightarrow> Token option" where
  "getNextToken lx = currentMatch lx"

subsection \<open>HeaderParser\<close>

text \<open>
  Modelled from the spec: \<open>headerName(expectedKind)\<close> matches the header-name token
  case-insensitively against \<open>expectedKind\<close>, then consumes the separator and the
  following whitespace; it fails with HeaderNameMismatch otherwise.
\<close>

fun asHeaderNameMismatch :: "error \<Rightarrow> error" where
  "asHeaderNameMismatch (ParseFailure k e a off) = ParseFailure HeaderNameMismatch e a off"
| "asHeaderNameMismatch TypeError = TypeError"

definition headerName :: "TokenTypes \<Rightarrow> Lexer \<Rightarrow> (error + unit) \<times> Lexer" where
  "headerName tok lx =
     (case match (Kind tok) lx of
        (Inl e, lx1) \<Rightarrow> (Inl (asHeaderNameMismatch e), lx1)
      | (Inr _, lx1) \<Rightarrow>
          (case match (Lit CHR '':'') lx1 of
             (Inl e, lx2) \<Rightarrow> (Inl (asHeaderNameMismatch e), lx2)
           | (Inr _, lx2) \<Rightarrow> (Inr (), SPorHT lx2)))"

subsection \<open>SupportedParser\<close>

text \<open>
  The class \<open>Supported\<close> is not among the source files. Its objects have the two fields
  the parser sets through \<open>setHeaderName\<close> and \<open>setOptionTag\<close> (\<open>None\<close> when a field
  has no value); what \<open>new Supported()\<close> returns is left open, as the parameter
  \<open>fresh\<close> of the parser below.
\<close>

record Supported =
  headerName_field :: "string option"
  optionTag :: "string option"

definition setHeaderName :: "string \<Rightarrow> Supported \<Rightarrow> Supported" where
  "setHeaderName n s = s\<lparr>headerName_field := Some n\<rparr>"

definition setOptionTag :: "string \<Rightarrow> Supported \<Rightarrow> Supported" where
  "setOptionTag t s = s\<lparr>optionTag := Some t\<rparr>"

text \<open>
  Modelled from the spec: \<open>SupportedList\<close>, the option-tag list value, is an ordered
  sequence, empty when new, and \<open>add\<close> appends to it.
\<close>

type_synonym SupportedList = "Supported list"

definition add :: "Supported \<Rightarrow> SupportedList \<Rightarrow> SupportedList" where
  "add s l = l @ [s]"

text \<open>\<open>SupportedParser.prototype.SUPPORTED = "Supported"\<close>\<close>

definition SUPPORTED_name :: string where
  "SUPPORTED_name = ''Supported''"

text \<open>
  The inner loop of \<open>SupportedParser.prototype.parse\<close>:
  \<^verbatim>\<open>
  while (this.lexer.lookAhead(0) == ',') {
      this.lexer.match(',');
      this.lexer.SPorHT();
      supported = new Supported();
      this.lexer.match(TokenTypes.prototype.ID);
      token = this.lexer.getNextToken();
      supported.setOptionTag(token.getTokenValue());
      this.lexer.SPorHT();
      supportedList.add(supported);
  }
  \<close>
  A result \<open>None\<close> stands for a loop that does not return.
\<close>

partial_function (option) parse_commas ::
  "Supported \<Rightarrow> SupportedList \<Rightarrow> Lexer \<Rightarrow> ((error + SupportedList) \<times> Lexer) option" where
  "parse_commas fresh supportedList lx =
     (if lookAhead 0 lx = Some CHR '','' then
        (case match (Lit CHR '','') lx of
           (Inl e, lx1) \<Rightarrow> Some (Inl e, lx1)
         | (Inr _, lx1) \<Rightarrow>
             (case match (Kind ID) (SPorHT lx1) of
                (Inl e, lx2) \<Rightarrow> Some (Inl e, lx2)
              | (Inr _, lx2) \<Rightarrow>
                  (case getNextToken lx2 of
                     None \<Rightarrow> Some (Inl TypeError, lx2)
                   | Some token \<Rightarrow>
                       parse_commas fresh
                         (add (setOptionTag (tokenValue token) fresh) supportedList)
                         (SPorHT lx2))))
      else Some (Inr supportedList, lx))"

declare parse_commas.simps [code]

text \<open>
  The outer loop:
  \<^verbatim>\<open>
  while (this.lexer.lookAhead(0) != '\n') {
      this.lexer.SPorHT();
      var supported = new Supported();
      supported.setHeaderName(this.SUPPORTED);
      this.lexer.match(TokenTypes.prototype.ID);
      var token = this.lexer.getNextToken();
      supported.setOptionTag(token.getTokenValue());
      this.lexer.SPorHT();
      supportedList.add(supported);
      while (this.lexer.lookAhead(0) == ',') { ... }
  }
  \<close>
\<close>

partial_function (option) parse_tags ::
  "Supported \<Rightarrow> SupportedList \<Rightarrow> Lexer \<Rightarrow> ((error + SupportedList) \<times> Lexer) option" where
  "parse_tags fresh supportedList lx =
     (if lookAhead 0 lx \<noteq> Some CHR ''\<newline>'' then
        (case match (Kind ID) (SPorHT lx) of
           (Inl e, lx1) \<Rightarrow> Some (Inl e, lx1)
         | (Inr _, lx1) \<Rightarrow>
             (case getNextToken lx1 of
                None \<Rightarrow> Some (Inl TypeError, lx1)
              | Some token \<Rightarrow>
                  (case parse_commas fresh
                          (add (setOptionTag (tokenValue token) (setHeaderName SUPPORTED_name fresh))
                             supportedList)
                          (SPorHT lx1) of
                     None \<Rightarrow> None
                   | Some (Inl e, lx2) \<Rightarrow> Some (Inl e, lx2)
                   | Some (Inr supportedList2, lx2) \<Rightarrow> parse_tags fresh supportedList2 lx2)))
      else Some (Inr supportedList, lx))"

declare parse_tags.simps [code]

text \<open>
  \<open>SupportedParser.prototype.parse\<close>, on the lexer of the parser:
  \<^verbatim>\<open>
  var supportedList = new SupportedList();
  this.headerName(TokenTypes.prototype.SUPPORTED);
  while (...) { ... }
  return supportedList;
  \<close>
\<close>

definition SupportedParser_parse ::
  "Supported \<Rightarrow> Lexer \<Rightarrow> ((error + SupportedList) \<times> Lexer) option" where
  "SupportedParser_parse fresh lx =
     (case headerName SUPPORTED lx of
        (Inl e, lx1) \<Rightarrow> Some (Inl e, lx1)
      | (Inr _, lx1) \<Rightarrow> parse_tags fresh [] lx1)"

text \<open>
  \<open>new SupportedParser(s).parse()\<close> on a string: the constructor builds the lexer
  \<open>new Lexer("command_keywordLexer", s)\<close> and \<open>parse\<close> runs on it.
\<close>

definition SupportedParser_parse_string ::
  "Supported \<Rightarrow> string \<Rightarrow> ((error + SupportedList) \<times> Lexer) option" where
  "SupportedParser_parse_string fresh s =
     SupportedParser_parse fresh (Lexer_new ''command_keywordLexer'' s)"

subsection \<open>ChallengeParser and AuthorizationParser\<close>

text \<open>
  Modelled from the spec: the challenge or credentials value, an auth-scheme and an ordered
  sequence of (name, value) auth-parameters, duplicates kept. \<open>new Authorization()\<close> has
  no scheme and no parameter yet.
\<close>

record Authorization =
  scheme :: "string option"
  authParameters :: "(string \<times> string) list"

definition Authorization_new :: Authorization where
  "Authorization_new = \<lparr>scheme = None, authParameters = []\<rparr>"

text \<open>
  Modelled from the spec: a quoted string, the characters between a double quote at the
  cursor and the next double quote; PrematureEndOfInput when the input ends before it.
\<close>

definition quotedString :: "Lexer \<Rightarrow> (error + string) \<times> Lexer" where
  "quotedString lx =
     (case match (Lit CHR 0x22) lx of
        (Inl e, lx1) \<Rightarrow> (Inl e, lx1)
      | (Inr _, lx1) \<Rightarrow>
          let s = takeWhile (\<lambda>c. c \<noteq> CHR 0x22) (rest lx1) in
          if length s < length (rest lx1) then (Inr s, consume (length s + 1) lx1)
          else (Inl (ParseFailure PrematureEndOfInput (Lit CHR 0x22) [] (ptr lx1 + length s)), lx1))"

text \<open>Modelled from the spec: the value of a parameter, \<open>token | quoted-string\<close>.\<close>

definition paramValue :: "Lexer \<Rightarrow> (error + string) \<times> Lexer" where
  "paramValue lx =
     (if lookAhead 0 lx = Some (CHR 0x22) then quotedString lx
      else case match (Kind ID) lx of
             (Inl e, lx1) \<Rightarrow> (Inl e, lx1)
           | (Inr _, lx1) \<Rightarrow>
               (case getNextToken lx1 of
                  None \<Rightarrow> (Inl TypeError, lx1)
                | Some token \<Rightarrow> (Inr (tokenValue token), lx1)))"

text \<open>
  Modelled from the spec: \<open>auth-param = token '=' (token | quoted-string)\<close>; a mismatch
  inside it is a MalformedAuthParam.
\<close>

fun asMalformedAuthParam :: "error \<Rightarrow> error" where
  "asMalformedAuthParam (ParseFailure k e a off) =
     (if k = PrematureEndOfInput then ParseFailure k e a off
      else ParseFailure MalformedAuthParam e a off)"
| "asMalformedAuthParam TypeError = TypeError"

definition authParam :: "Lexer \<Rightarrow> (error + string \<times> string) \<times> Lexer" where
  "authParam lx =
     (case match (Kind ID) lx of
        (Inl e, lx1) \<Rightarrow> (Inl (asMalformedAuthParam e), lx1)
      | (Inr _, lx1) \<Rightarrow>
          (case getNextToken lx1 of
             None \<Rightarrow> (Inl TypeError, lx1)
           | Some token \<Rightarrow>
               (case match (Lit CHR ''='') lx1 of
                  (Inl e, lx2) \<Rightarrow> (Inl (asMalformedAuthParam e), lx2)
                | (Inr _, lx2) \<Rightarrow>
                    (case paramValue lx2 of
                       (Inl e, lx3) \<Rightarrow> (Inl (asMalformedAuthParam e), lx3)
                     | (Inr v, lx3) \<Rightarrow> (Inr (tokenValue token, v), lx3)))))"

text \<open>
  Modelled from the spec: "then loop while lookahead is \<open>,\<close>: consume \<open>,\<close>, optional
  whitespace, read the next auth-param, append".
\<close>

partial_function (option) challenge_params ::
  "Authorization \<Rightarrow> Lexer \<Rightarrow> ((error + Authorization) \<times> Lexer) option" where
  "challenge_params header lx =
     (if lookAhead 0 lx = Some CHR '','' then
        (case match (Lit CHR '','') lx of
           (Inl e, lx1) \<Rightarrow> Some (Inl e, lx1)
         | (Inr _, lx1) \<Rightarrow>
             (case authParam (SPorHT lx1) of
                (Inl e, lx2) \<Rightarrow> Some (Inl e, lx2)
              | (Inr nv, lx2) \<Rightarrow>
                  challenge_params (header\<lparr>authParameters := authParameters header @ [nv]\<rparr>) lx2))
      else Some (Inr header, lx))"

declare challenge_params.simps [code]

text \<open>
  Modelled from the spec: \<open>ChallengeParser.prototype.parse(header)\<close>, the grammar
  \<open>auth-scheme SP auth-param *( ',' auth-param )\<close>: "read the scheme token; then read one
  auth-param; then loop while lookahead is \<open>,\<close>".
\<close>

definition ChallengeParser_parse ::
  "Authorization \<Rightarrow> Lexer \<Rightarrow> ((error + Authorization) \<times> Lexer) option" where
  "ChallengeParser_parse header lx =
     (case match (Kind ID) lx of
        (Inl e, lx1) \<Rightarrow> Some (Inl e, lx1)
      | (Inr _, lx1) \<Rightarrow>
          (case getNextToken lx1 of
             None \<Rightarrow> Some (Inl TypeError, lx1)
           | Some token \<Rightarrow>
               (case match (Lit CHR '' '') lx1 of
                  (Inl e, lx2) \<Rightarrow> Some (Inl e, lx2)
                | (Inr _, lx2) \<Rightarrow>
                    (case authParam lx2 of
                       (Inl e, lx3) \<Rightarrow> Some (Inl e, lx3)
                     | (Inr nv, lx3) \<Rightarrow>
                         challenge_params
                           (header\<lparr>scheme := Some (tokenValue token),
                                   authParameters := authParameters header @ [nv]\<rparr>)
                           lx3))))"

text \<open>
  \<open>AuthorizationParser.prototype.parse\<close>:
  \<^verbatim>\<open>
  this.headerName(TokenTypes.prototype.AUTHORIZATION);
  var auth = new Authorization();
  ChallengeParser.prototype.parse.call(this,auth);
  return auth;
  \<close>
\<close>

definition AuthorizationParser_parse ::
  "Lexer \<Rightarrow> ((error + Authorization) \<times> Lexer) option" where
  "AuthorizationParser_parse lx =
     (case headerName AUTHORIZATION lx of
        (Inl e, lx1) \<Rightarrow> Some (Inl e, lx1)
      | (Inr _, lx1) \<Rightarrow> ChallengeParser_parse Authorization_new lx1)"

definition AuthorizationParser_parse_string ::
  "string \<Rightarrow> ((error + Authorization) \<times> Lexer) option" where
  "AuthorizationParser_parse_string s =
     AuthorizationParser_parse (Lexer_new ''command_keywordLexer'' s)"

subsection \<open>AddressParametersParser and ToParser\<close>

text \<open>
  Modelled from the spec: the address header value, an address and an ordered sequence of
  generic parameters (name, optional value). The address is the result of the address
  sub-parser, which the spec leaves to a peer component: its type is the parameter
  \<open>'a\<close> and the sub-parser is the parameter \<open>addressParser\<close> below.
\<close>

record 'a To =
  address :: "'a option"
  parameters :: "(string \<times> string option) list"

definition To_new :: "'a To" where
  "To_new = \<lparr>address = None, parameters = []\<rparr>"

text \<open>Modelled from the spec: \<open>generic-param = token [ '=' (token | quoted-string) ]\<close>.\<close>

definition genericParam :: "Lexer \<Rightarrow> (error + string \<times> string option) \<times> Lexer" where
  "genericParam lx =
     (case match (Kind ID) lx of
        (Inl e, lx1) \<Rightarrow> (Inl e, lx1)
      | (Inr _, lx1) \<Rightarrow>
          (case getNextToken lx1 of
             None \<Rightarrow> (Inl TypeError, lx1)
           | Some token \<Rightarrow>
               if lookAhead 0 lx1 = Some CHR ''='' then
                 (case match (Lit CHR ''='') lx1 of
                    (Inl e, lx2) \<Rightarrow> (Inl e, lx2)
                  | (Inr _, lx2) \<Rightarrow>
                      (case paramValue lx2 of
                         (Inl e, lx3) \<Rightarrow> (Inl e, lx3)
                       | (Inr v, lx3) \<Rightarrow> (Inr (tokenValue token, Some v), lx3)))
               else (Inr (tokenValue token, None), lx1)))"

text \<open>
  Modelled from the spec: "then loop while lookahead is \<open>;\<close>: consume \<open>;\<close>, parse one
  generic-param, append to the ordered parameter list".
\<close>

partial_function (option) address_params ::
  "'a To \<Rightarrow> Lexer \<Rightarrow> ((error + 'a To) \<times> Lexer) option" where
  "address_params header lx =
     (if lookAhead 0 lx = Some CHR '';'' then
        (case match (Lit CHR '';'') lx of
           (Inl e, lx1) \<Rightarrow> Some (Inl e, lx1)
         | (Inr _, lx1) \<Rightarrow>
             (case genericParam lx1 of
                (Inl e, lx2) \<Rightarrow> Some (Inl e, lx2)
              | (Inr nv, lx2) \<Rightarrow>
                  address_params (header\<lparr>parameters := parameters header @ [nv]\<rparr>) lx2))
      else Some (Inr header, lx))"

declare address_params.simps [code]

text \<open>
  Modelled from the spec: \<open>AddressParametersParser.prototype.parse(header)\<close>, "delegate
  the address portion to an address sub-parser, then loop while lookahead is \<open>;\<close>". The
  sub-parser may fail or not return.
\<close>

definition AddressParametersParser_parse ::
  "(Lexer \<Rightarrow> ((error + 'a) \<times> Lexer) option) \<Rightarrow> 'a To \<Rightarrow> Lexer
     \<Rightarrow> ((error + 'a To) \<times> Lexer) option" where
  "AddressParametersParser_parse addressParser header lx =
     (case addressParser lx of
        None \<Rightarrow> None
      | Some (Inl e, lx1) \<Rightarrow> Some (Inl e, lx1)
      | Some (Inr a, lx1) \<Rightarrow> address_params (header\<lparr>address := Some a\<rparr>) lx1)"

text \<open>
  \<open>ToParser.prototype.parse\<close>:
  \<^verbatim>\<open>
  this.headerName(TokenTypes.prototype.TO);
  var to = new To();
  AddressParametersParser.prototype.parse.call(this,to);
  this.lexer.match('\n');
  return to;
  \<close>
\<close>

definition ToParser_parse ::
  "(Lexer \<Rightarrow> ((error + 'a) \<times> Lexer) option) \<Rightarrow> Lexer \<Rightarrow> ((error + 'a To) \<times> Lexer) option" where
  "ToParser_parse addressParser lx =
     (case headerName TO lx of
        (Inl e, lx1) \<Rightarrow> Some (Inl e, lx1)
      | (Inr _, lx1) \<Rightarrow>
          (case AddressParametersParser_parse addressParser To_new lx1 of
             None \<Rightarrow> None
           | Some (Inl e, lx2) \<Rightarrow> Some (Inl e, lx2)
           | Some (Inr to, lx2) \<Rightarrow>
               (case match (Lit CHR ''\<newline>'') lx2 of
                  (Inl e, lx3) \<Rightarrow> Some (Inl e, lx3)
                | (Inr _, lx3) \<Rightarrow> Some (Inr to, lx3))))"

subsection \<open>Parser objects and their constructors\<close>

text \<open>
  A constructor either borrows the lexer object of its caller (\<open>this.lexer = lexer\<close>, the
  same object) or builds one of its own. The lexer objects live in a store, addressed by
  reference; \<open>new Lexer\<close> allocates the next reference.
\<close>

type_synonym ref = nat

type_synonym store = "Lexer list"

text \<open>
  The argument \<open>arguments[0]\<close> of a constructor. \<open>typeof\<close> is \<open>"object"\<close> for an object
  and for \<open>null\<close>, \<open>"string"\<close> for a string; \<open>Undefined\<close> stands for every other value.
  A reference outside the store is an object that is no lexer.
\<close>

datatype js_value = Undefined | Null | Str string | Obj ref

record Parser =
  classname :: string
  lexer :: "ref option"

text \<open>
  The three constructors have the same body:
  \<^verbatim>\<open>
  this.classname="SupportedParser";
  if(typeof arguments[0]=="object")
  {
      var lexer=arguments[0];
      this.lexer = lexer;
      this.lexer.selectLexer("command_keywordLexer");
  }
  else if(typeof arguments[0]=="string")
  {
      var supported=arguments[0];
      this.lexer = new Lexer("command_keywordLexer", supported);
  }
  \<close>
  Calling \<open>selectLexer\<close> on \<open>null\<close> or on an object without that method is a
  \<open>TypeError\<close>.
\<close>

definition construct :: "string \<Rightarrow> js_value \<Rightarrow> store \<Rightarrow> (error + Parser) \<times> store" where
  "construct cn arg h =
     (case arg of
        Obj r \<Rightarrow>
          if r < length h
          then (Inr \<lparr>classname = cn, lexer = Some r\<rparr>,
                h[r := selectLexer ''command_keywordLexer'' (h ! r)])
          else (Inl TypeError, h)
      | Null \<Rightarrow> (Inl TypeError, h)
      | Str s \<Rightarrow>
          (Inr \<lparr>classname = cn, lexer = Some (length h)\<rparr>,
           h @ [Lexer_new ''command_keywordLexer'' s])
      | Undefined \<Rightarrow> (Inr \<lparr>classname = cn, lexer = None\<rparr>, h))"

definition SupportedParser_new :: "js_value \<Rightarrow> store \<Rightarrow> (error + Parser) \<times> store" where
  "SupportedParser_new = construct ''SupportedParser''"

definition AuthorizationParser_new :: "js_value \<Rightarrow> store \<Rightarrow> (error + Parser) \<times> store" where
  "AuthorizationParser_new = construct ''AuthorizationParser''"

definition ToParser_new :: "js_value \<Rightarrow> store \<Rightarrow> (error + Parser) \<times> store" where
  "ToParser_new = construct ''ToParser''"

text \<open>
  A method of a parser object runs on the lexer \<open>this.lexer\<close> refers to and leaves it
  updated in the store; with no lexer the first \<open>this.lexer.match\<close> is a \<open>TypeError\<close>.
\<close>

definition onLexer ::
  "(Lexer \<Rightarrow> ((error + 'r) \<times> Lexer) option) \<Rightarrow> Parser \<Rightarrow> store \<Rightarrow> ((error + 'r) \<times> store) option" where
  "onLexer f this h =
     (case lexer this of
        None \<Rightarrow> Some (Inl TypeError, h)
      | Some r \<Rightarrow>
          if r < length h
          then (case f (h ! r) of
                  None \<Rightarrow> None
                | Some (res, lx) \<Rightarrow> Some (res, h[r := lx]))
          else Some (Inl TypeError, h))"

definition SupportedParser_prototype_parse ::
  "Supported \<Rightarrow> Parser \<Rightarrow> store \<Rightarrow> ((error + SupportedList) \<times> store) option" where
  "SupportedParser_prototype_parse fresh = onLexer (SupportedParser_parse fresh)"

subsection \<open>Specification-side definitions\<close>

text \<open>
  The value of a header line: what stands between the first colon and the first newline.
\<close>

definition headerValue :: "string \<Rightarrow> string" where
  "headerValue s =
     takeWhile (\<lambda>c. c \<noteq> CHR ''\<newline>'')
       (drop (Suc (length (takeWhile (\<lambda>c. c \<noteq> CHR '':'') s))) s)"

text \<open>
  The option-tags of a text, in order, each with the answer to ``does it follow a comma'':
  a tag is a maximal run of option-tag characters, and it follows a comma when a comma
  stands between it and the tag before it (or the start of the text, from which the
  reading starts with \<open>afterComma\<close> false).
\<close>

function tagsFrom :: "bool \<Rightarrow> string \<Rightarrow> (bool \<times> string) list" where
  "tagsFrom afterComma [] = []"
| "tagsFrom afterComma (c # cs) =
     (if isIdChar c
      then (afterComma, takeWhile isIdChar (c # cs))
             # tagsFrom False (dropWhile isIdChar (c # cs))
      else tagsFrom (afterComma \<or> c = CHR '','') cs)"
  by pat_completeness auto
termination
  by (relation "measure (\<lambda>(a, s). length s)")
     (auto simp: le_imp_less_Suc length_dropWhile_le)

text \<open>
  The element of the list for one option-tag: after a comma, a \<open>new Supported()\<close> with the
  option-tag set and nothing else; otherwise a \<open>new Supported()\<close> with the header name
  set to "Supported" and the option-tag set.
\<close>

definition element :: "Supported \<Rightarrow> bool \<times> string \<Rightarrow> Supported" where
  "element fresh p =
     (if fst p then setOptionTag (snd p) fresh
      else setOptionTag (snd p) (setHeaderName SUPPORTED_name fresh))"

text \<open>
  The grammar of the option-tag list header, \<open>header-name ':' [ option-tag *( ',' option-tag ) ]\<close>,
  written from the spec's words as a recogniser of the input string: the header name up to
  the colon is "Supported" in any case, the value runs up to the first newline, and the
  value is blank or each of its comma-separated items is acceptable. An item of the
  grammar is one option-tag, with optional whitespace around it (\<open>oneTag\<close>).
\<close>

fun splitOn :: "'a \<Rightarrow> 'a list \<Rightarrow> 'a list list" where
  "splitOn c [] = [[]]"
| "splitOn c (x # xs) =
     (if x = c then [] # splitOn c xs
      else case splitOn c xs of [] \<Rightarrow> [[x]] | y # ys \<Rightarrow> (x # y) # ys)"

definition oneTag :: "string \<Rightarrow> bool" where
  "oneTag item =
     (let t = dropWhile isLWS item
      in takeWhile isIdChar t \<noteq> [] \<and> list_all isLWS (dropWhile isIdChar t))"

text \<open>
  The items the source accepts: one or more option-tags separated by whitespace, that is,
  option-tag characters and whitespace only, with at least one option-tag character.
\<close>

definition someTags :: "string \<Rightarrow> bool" where
  "someTags item = (list_all (\<lambda>c. isIdChar c \<or> isLWS c) item \<and> list_ex isIdChar item)"

definition optionTagList :: "(string \<Rightarrow> bool) \<Rightarrow> string \<Rightarrow> bool" where
  "optionTagList item v = (list_all isLWS v \<or> list_all item (splitOn CHR '','' v))"

definition conforms :: "(string \<Rightarrow> bool) \<Rightarrow> string \<Rightarrow> bool" where
  "conforms item s =
     (let name = takeWhile (\<lambda>c. c \<noteq> CHR '':'') s;
          after = drop (Suc (length name)) s;
          v = takeWhile (\<lambda>c. c \<noteq> CHR ''\<newline>'') after
      in map toLowerCase name = ''supported'' \<and> length name < length s
         \<and> length v < length after \<and> optionTagList item v)"

text \<open>
  What may follow an option-tag and the whitespace after it, in an input the source
  accepts: nothing, further items at once, or a comma and further items.
\<close>

definition afterTag :: "string \<Rightarrow> bool" where
  "afterTag x =
     (case x of
        [] \<Rightarrow> True
      | c # y \<Rightarrow>
          list_all someTags (splitOn CHR '','' x)
          \<or> (c = CHR '','' \<and> list_all someTags (splitOn CHR '','' y)))"

section \<open>Properties\<close>

subsection \<open>Evaluation on concrete inputs\<close>

lemmas lexer_defs =
  Lexer_new_def lookAhead_def consume_def rest_def SPorHT_def getNextId_def actualText_def
  match_def getNextToken_def headerName_def lexerTables_def toLowerCase_def
  isIdChar_def isLetter_def isDigit_def isLWS_def

lemmas supported_defs =
  SupportedParser_parse_string_def SupportedParser_parse_def parse_tags.simps parse_commas.simps
  add_def setOptionTag_def setHeaderName_def SUPPORTED_name_def

lemmas authorization_defs =
  AuthorizationParser_parse_string_def AuthorizationParser_parse_def ChallengeParser_parse_def
  challenge_params.simps authParam_def paramValue_def quotedString_def Authorization_new_def

subsection \<open>The lexer operations keep the buffer and move the cursor forward\<close>

lemma consume_simps [simp]:
  "buffer (consume n lx) = buffer lx"
  "ptr (consume n lx) = ptr lx + n"
  "currentLexerName (consume n lx) = currentLexerName lx"
  by (simp_all add: consume_def)

lemma SPorHT_simps [simp]:
  "buffer (SPorHT lx) = buffer lx"
  "currentLexerName (SPorHT lx) = currentLexerName lx"
  by (simp_all add: SPorHT_def)

lemma SPorHT_ptr: "ptr lx \<le> ptr (SPorHT lx)"
  by (simp add: SPorHT_def)

lemma match_fails: "match e lx = (Inl err, lx') \<Longrightarrow> lx' = lx"
  by (auto simp: match_def Let_def split: expected.splits if_splits)

lemma match_succeeds:
  assumes "match e lx = (Inr u, lx')"
  shows "buffer lx' = buffer lx \<and> currentLexerName lx' = currentLexerName lx
    \<and> ptr lx < ptr lx' \<and> ptr lx < length (buffer lx)"
proof (cases e)
  case (Kind k)
  let ?id = "getNextId lx"
  from assms Kind have id: "?id \<noteq> []" and lx': "lx' = (consume (length ?id) lx)
      \<lparr>currentMatch := Some \<lparr>tokenType = k, tokenValue = ?id, tokenOffset = ptr lx\<rparr>\<rparr>"
    by (auto simp: match_def Let_def split: if_splits)
  from id have "rest lx \<noteq> []" by (auto simp: getNextId_def)
  then have "ptr lx < length (buffer lx)" by (simp add: rest_def)
  with id lx' show ?thesis by simp
next
  case (Lit c)
  with assms show ?thesis
    by (auto simp: match_def lookAhead_def split: if_splits)
qed

lemma match_Kind_token:
  "match (Kind k) lx = (Inr u, lx')
     \<Longrightarrow> getNextToken lx' = Some \<lparr>tokenType = k, tokenValue = getNextId lx, tokenOffset = ptr lx\<rparr>"
  by (auto simp: match_def Let_def getNextToken_def split: if_splits)

lemma match_Lit: "lookAhead 0 lx = Some c \<Longrightarrow> match (Lit c) lx = (Inr (), consume 1 lx)"
  by (simp add: match_def)

lemma headerName_frame:
  assumes "headerName k lx = (res, lx')"
  shows "buffer lx' = buffer lx \<and> ptr lx \<le> ptr lx'
     \<and> currentLexerName lx' = currentLexerName lx"
proof -
  obtain r1 lx1 where m1: "match (Kind k) lx = (r1, lx1)" by force
  show ?thesis
  proof (cases r1)
    case (Inl e)
    with m1 assms show ?thesis by (auto simp: headerName_def dest: match_fails)
  next
    case (Inr u)
    with m1 have s1: "buffer lx1 = buffer lx" "ptr lx < ptr lx1"
      "currentLexerName lx1 = currentLexerName lx"
      by (auto dest: match_succeeds)
    obtain r2 lx2 where m2: "match (Lit CHR '':'') lx1 = (r2, lx2)" by force
    show ?thesis
    proof (cases r2)
      case (Inl e)
      with m2 have "lx2 = lx1" by (auto dest: match_fails)
      with m1 m2 Inr Inl assms s1 show ?thesis by (simp add: headerName_def)
    next
      case r2: (Inr v)
      with m2 have s2: "buffer lx2 = buffer lx1" "ptr lx1 < ptr lx2"
        "currentLexerName lx2 = currentLexerName lx1"
        by (auto dest: match_succeeds)
      from m1 m2 Inr r2 assms have "lx' = SPorHT lx2" by (simp add: headerName_def)
      with s1 s2 SPorHT_ptr [of lx2] show ?thesis by simp
    qed
  qed
qed

subsection \<open>One iteration of each loop of SupportedParser.parse\<close>

text \<open>
  The inner loop stops when the lookahead is no comma; otherwise it consumes the comma
  and either fails at the option-tag or goes on from a lexer that is strictly further.
\<close>

lemma parse_commas_stop:
  "lookAhead 0 lx \<noteq> Some CHR '','' \<Longrightarrow> parse_commas fresh acc lx = Some (Inr acc, lx)"
  by (subst parse_commas.simps) simp

lemma parse_commas_fail:
  assumes "lookAhead 0 lx = Some CHR '',''"
    and "match (Kind ID) (SPorHT (consume 1 lx)) = (Inl e, lx2)"
  shows "parse_commas fresh acc lx = Some (Inl e, lx2)"
  using assms by (subst parse_commas.simps) (simp add: match_Lit)

lemma parse_commas_step:
  assumes "lookAhead 0 lx = Some CHR '',''"
    and "match (Kind ID) (SPorHT (consume 1 lx)) = (Inr u, lx2)"
  shows "parse_commas fresh acc lx =
     parse_commas fresh (add (setOptionTag (getNextId (SPorHT (consume 1 lx))) fresh) acc)
       (SPorHT lx2)"
  using assms match_Kind_token [OF assms(2)]
  by (subst parse_commas.simps) (simp add: match_Lit)

lemma parse_commas_progress:
  assumes "lookAhead 0 lx = Some CHR '',''"
    and "match (Kind ID) (SPorHT (consume 1 lx)) = (Inr u, lx2)"
  shows "buffer (SPorHT lx2) = buffer lx \<and> ptr lx < ptr (SPorHT lx2)
     \<and> ptr lx < length (buffer lx)"
  using match_succeeds [OF assms(2)] SPorHT_ptr [of "consume 1 lx"] SPorHT_ptr [of lx2]
  by simp

text \<open>
  The outer loop stops at a newline; otherwise it either fails at the option-tag or runs
  the inner loop from a lexer that is strictly further.
\<close>

lemma parse_tags_stop:
  "lookAhead 0 lx = Some CHR ''\<newline>'' \<Longrightarrow> parse_tags fresh acc lx = Some (Inr acc, lx)"
  by (subst parse_tags.simps) simp

lemma parse_tags_fail:
  assumes "lookAhead 0 lx \<noteq> Some CHR ''\<newline>''"
    and "match (Kind ID) (SPorHT lx) = (Inl e, lx1)"
  shows "parse_tags fresh acc lx = Some (Inl e, lx1)"
  using assms by (subst parse_tags.simps) simp

lemma parse_tags_step:
  assumes "lookAhead 0 lx \<noteq> Some CHR ''\<newline>''"
    and "match (Kind ID) (SPorHT lx) = (Inr u, lx1)"
  shows "parse_tags fresh acc lx =
     (case parse_commas fresh
             (add (setOptionTag (getNextId (SPorHT lx)) (setHeaderName SUPPORTED_name fresh)) acc)
             (SPorHT lx1) of
        None \<Rightarrow> None
      | Some (Inl e, lx2) \<Rightarrow> Some (Inl e, lx2)
      | Some (Inr acc2, lx2) \<Rightarrow> parse_tags fresh acc2 lx2)"
  using assms match_Kind_token [OF assms(2)]
  by (subst parse_tags.simps) simp

lemma parse_tags_progress:
  assumes "match (Kind ID) (SPorHT lx) = (Inr u, lx1)"
  shows "buffer (SPorHT lx1) = buffer lx \<and> ptr lx < ptr (SPorHT lx1)
     \<and> ptr lx < length (buffer lx)"
  using match_succeeds [OF assms] SPorHT_ptr [of lx] SPorHT_ptr [of lx1]
  by simp

subsection \<open>Both loops return\<close>

lemma parse_commas_returns:
  "\<exists>res lx'. parse_commas fresh acc lx = Some (res, lx')
      \<and> buffer lx' = buffer lx \<and> ptr lx \<le> ptr lx'"
proof (induction lx arbitrary: acc
    rule: measure_induct_rule [of "\<lambda>lx. length (buffer lx) - ptr lx"])
  case (less lx)
  show ?case
  proof (cases "lookAhead 0 lx = Some CHR '',''")
    case False
    then show ?thesis by (simp add: parse_commas_stop)
  next
    case True
    obtain r2 lx2 where m2: "match (Kind ID) (SPorHT (consume 1 lx)) = (r2, lx2)" by force
    show ?thesis
    proof (cases r2)
      case (Inl e)
      with m2 have "lx2 = SPorHT (consume 1 lx)" by (auto dest: match_fails)
      with True m2 Inl show ?thesis
        using SPorHT_ptr [of "consume 1 lx"] by (simp add: parse_commas_fail)
    next
      case (Inr u)
      with m2 have m: "match (Kind ID) (SPorHT (consume 1 lx)) = (Inr u, lx2)" by simp
      note p = parse_commas_progress [OF True m]
      then have "length (buffer (SPorHT lx2)) - ptr (SPorHT lx2) < length (buffer lx) - ptr lx"
        by auto
      from less [OF this] p show ?thesis
        by (simp add: parse_commas_step [OF True m]) (metis less_imp_le le_trans)
    qed
  qed
qed

lemma parse_tags_returns:
  "\<exists>res lx'. parse_tags fresh acc lx = Some (res, lx')
      \<and> buffer lx' = buffer lx \<and> ptr lx \<le> ptr lx'"
proof (induction lx arbitrary: acc
    rule: measure_induct_rule [of "\<lambda>lx. length (buffer lx) - ptr lx"])
  case (less lx)
  show ?case
  proof (cases "lookAhead 0 lx = Some CHR ''\<newline>''")
    case True
    then show ?thesis by (simp add: parse_tags_stop)
  next
    case False
    obtain r1 lx1 where m1: "match (Kind ID) (SPorHT lx) = (r1, lx1)" by force
    show ?thesis
    proof (cases r1)
      case (Inl e)
      with m1 have "lx1 = SPorHT lx" by (auto dest: match_fails)
      with False m1 Inl show ?thesis
        using SPorHT_ptr [of lx] by (simp add: parse_tags_fail)
    next
      case (Inr u)
      with m1 have m: "match (Kind ID) (SPorHT lx) = (Inr u, lx1)" by simp
      note p = parse_tags_progress [OF m]
      let ?acc1 = "add (setOptionTag (getNextId (SPorHT lx)) (setHeaderName SUPPORTED_name fresh)) acc"
      obtain r2 lx2 where c: "parse_commas fresh ?acc1 (SPorHT lx1) = Some (r2, lx2)"
        and s2: "buffer lx2 = buffer lx" "ptr (SPorHT lx1) \<le> ptr lx2"
        using parse_commas_returns [of fresh ?acc1 "SPorHT lx1"] p by auto
      show ?thesis
      proof (cases r2)
        case (Inl e)
        with c s2 p show ?thesis
          by (simp add: parse_tags_step [OF False m])
      next
        case r2: (Inr acc2)
        from p s2 have "length (buffer lx2) - ptr lx2 < length (buffer lx) - ptr lx" by auto
        from less [OF this, of acc2]
        obtain res lx' where "parse_tags fresh acc2 lx2 = Some (res, lx')"
          "buffer lx' = buffer lx" "ptr lx2 \<le> ptr lx'"
          using s2 by auto
        with c r2 p s2 show ?thesis
          by (simp add: parse_tags_step [OF False m])
      qed
    qed
  qed
qed

lemma SupportedParser_parse_returns:
  "\<exists>res lx'. SupportedParser_parse fresh lx = Some (res, lx')
     \<and> buffer lx' = buffer lx \<and> ptr lx \<le> ptr lx'"
proof -
  obtain r1 lx1 where h: "headerName SUPPORTED lx = (r1, lx1)" by force
  then have f: "buffer lx1 = buffer lx" "ptr lx \<le> ptr lx1" by (auto dest: headerName_frame)
  show ?thesis
  proof (cases r1)
    case (Inl e)
    with h f show ?thesis by (simp add: SupportedParser_parse_def)
  next
    case (Inr u)
    with h f parse_tags_returns [of fresh "[]" lx1] show ?thesis
      by (auto simp: SupportedParser_parse_def)
  qed
qed

subsection \<open>Induction over the successful runs of the loops\<close>

lemma parse_commas_success_induct [consumes 1, case_names stop step]:
  assumes run: "parse_commas fresh acc lx = Some (Inr l, lx')"
    and stop: "\<And>acc lx. lookAhead 0 lx \<noteq> Some CHR '','' \<Longrightarrow> P acc lx acc lx"
    and step: "\<And>acc lx lx2 l lx'.
       lookAhead 0 lx = Some CHR '','' \<Longrightarrow>
       match (Kind ID) (SPorHT (consume 1 lx)) = (Inr (), lx2) \<Longrightarrow>
       parse_commas fresh (add (setOptionTag (getNextId (SPorHT (consume 1 lx))) fresh) acc)
         (SPorHT lx2) = Some (Inr l, lx') \<Longrightarrow>
       P (add (setOptionTag (getNextId (SPorHT (consume 1 lx))) fresh) acc) (SPorHT lx2) l lx' \<Longrightarrow>
       P acc lx l lx'"
  shows "P acc lx l lx'"
  using run
proof (induction lx arbitrary: acc
    rule: measure_induct_rule [of "\<lambda>lx. length (buffer lx) - ptr lx"])
  case (less lx)
  show ?case
  proof (cases "lookAhead 0 lx = Some CHR '',''")
    case False
    with less.prems stop [OF False, of acc] show ?thesis by (simp add: parse_commas_stop)
  next
    case True
    obtain r2 lx2 where m2: "match (Kind ID) (SPorHT (consume 1 lx)) = (r2, lx2)" by force
    show ?thesis
    proof (cases r2)
      case (Inl e)
      with True m2 less.prems show ?thesis by (simp add: parse_commas_fail)
    next
      case (Inr u)
      with m2 have m: "match (Kind ID) (SPorHT (consume 1 lx)) = (Inr (), lx2)" by simp
      from parse_commas_progress [OF True m]
      have d: "length (buffer (SPorHT lx2)) - ptr (SPorHT lx2) < length (buffer lx) - ptr lx"
        by auto
      from less.prems have r: "parse_commas fresh
          (add (setOptionTag (getNextId (SPorHT (consume 1 lx))) fresh) acc) (SPorHT lx2)
          = Some (Inr l, lx')"
        by (simp add: parse_commas_step [OF True m])
      from step [OF True m r less.IH [OF d r]] show ?thesis .
    qed
  qed
qed

lemma parse_tags_success_induct [consumes 1, case_names stop step]:
  assumes run: "parse_tags fresh acc lx = Some (Inr l, lx')"
    and stop: "\<And>acc lx. lookAhead 0 lx = Some CHR ''\<newline>'' \<Longrightarrow> P acc lx acc lx"
    and step: "\<And>acc lx lx1 acc2 lx2 l lx'.
       lookAhead 0 lx \<noteq> Some CHR ''\<newline>'' \<Longrightarrow>
       match (Kind ID) (SPorHT lx) = (Inr (), lx1) \<Longrightarrow>
       parse_commas fresh
         (add (setOptionTag (getNextId (SPorHT lx)) (setHeaderName SUPPORTED_name fresh)) acc)
         (SPorHT lx1) = Some (Inr acc2, lx2) \<Longrightarrow>
       parse_tags fresh acc2 lx2 = Some (Inr l, lx') \<Longrightarrow>
       P acc2 lx2 l lx' \<Longrightarrow>
       P acc lx l lx'"
  shows "P acc lx l lx'"
  using run
proof (induction lx arbitrary: acc
    rule: measure_induct_rule [of "\<lambda>lx. length (buffer lx) - ptr lx"])
  case (less lx)
  show ?case
  proof (cases "lookAhead 0 lx = Some CHR ''\<newline>''")
    case True
    with less.prems stop [OF True, of acc] show ?thesis by (simp add: parse_tags_stop)
  next
    case False
    obtain r1 lx1 where m1: "match (Kind ID) (SPorHT lx) = (r1, lx1)" by force
    show ?thesis
    proof (cases r1)
      case (Inl e)
      with False m1 less.prems show ?thesis by (simp add: parse_tags_fail)
    next
      case (Inr u)
      with m1 have m: "match (Kind ID) (SPorHT lx) = (Inr (), lx1)" by simp
      note p = parse_tags_progress [OF m]
      let ?acc1 = "add (setOptionTag (getNextId (SPorHT lx)) (setHeaderName SUPPORTED_name fresh)) acc"
      obtain r2 lx2 where c: "parse_commas fresh ?acc1 (SPorHT lx1) = Some (r2, lx2)"
        and s2: "buffer lx2 = buffer lx" "ptr (SPorHT lx1) \<le> ptr lx2"
        using parse_commas_returns [of fresh ?acc1 "SPorHT lx1"] p by auto
      show ?thesis
      proof (cases r2)
        case (Inl e)
        with c less.prems show ?thesis by (simp add: parse_tags_step [OF False m])
      next
        case r2: (Inr acc2)
        from p s2 have d: "length (buffer lx2) - ptr lx2 < length (buffer lx) - ptr lx" by auto
        from less.prems c r2 have r: "parse_tags fresh acc2 lx2 = Some (Inr l, lx')"
          by (simp add: parse_tags_step [OF False m])
        from c r2 have c': "parse_commas fresh ?acc1 (SPorHT lx1) = Some (Inr acc2, lx2)" by simp
        from step [OF False m c' r less.IH [OF d r]] show ?thesis .
      qed
    qed
  qed
qed

subsection \<open>The elements of the returned list\<close>

lemma parse_commas_elements:
  assumes "parse_commas fresh acc lx = Some (Inr l, lx')"
  shows "\<exists>ts. l = acc @ map (\<lambda>t. setOptionTag t fresh) ts"
  using assms
proof (induction rule: parse_commas_success_induct)
  case (stop acc lx)
  then show ?case by simp
next
  case (step acc lx lx2 l lx')
  then obtain ts where "l = add (setOptionTag (getNextId (SPorHT (consume 1 lx))) fresh) acc
      @ map (\<lambda>t. setOptionTag t fresh) ts"
    by blast
  then have "l = acc @ map (\<lambda>t. setOptionTag t fresh) (getNextId (SPorHT (consume 1 lx)) # ts)"
    by (simp add: add_def)
  then show ?case by blast
qed

lemma parse_tags_newline:
  assumes "parse_tags fresh acc lx = Some (Inr l, lx')"
  shows "lookAhead 0 lx' = Some CHR ''\<newline>''"
  using assms by (induction rule: parse_tags_success_induct) simp_all

subsection \<open>The cursor after a successful parse\<close>

text \<open>
  SupportedParser.parse stops with the newline as the lookahead; ToParser.parse consumes
  it with \<open>match('\n')\<close>, so its cursor is right after a newline.
\<close>

lemma SupportedParser_parse_cursor:
  assumes "SupportedParser_parse fresh lx = Some (Inr l, lx')"
  shows "lookAhead 0 lx' = Some CHR ''\<newline>''"
proof -
  from assms obtain lx1 where "parse_tags fresh [] lx1 = Some (Inr l, lx')"
    by (auto simp: SupportedParser_parse_def split: prod.splits sum.splits)
  then show ?thesis by (rule parse_tags_newline)
qed

lemma ToParser_parse_cursor:
  assumes "ToParser_parse addressParser lx = Some (Inr to, lx')"
  shows "0 < ptr lx' \<and> ptr lx' \<le> length (buffer lx')
     \<and> buffer lx' ! (ptr lx' - 1) = CHR ''\<newline>''"
proof -
  from assms obtain lx2 where m: "match (Lit CHR ''\<newline>'') lx2 = (Inr (), lx')"
    by (auto simp: ToParser_parse_def split: prod.splits sum.splits option.splits)
  then have "lookAhead 0 lx2 = Some CHR ''\<newline>''" and "lx' = consume 1 lx2"
    by (auto simp: match_def split: if_splits)
  then show ?thesis by (auto simp: lookAhead_def split: if_splits)
qed

subsection \<open>The header name\<close>

lemma match_keyword_iff:
  assumes "currentLexerName lx = ''command_keywordLexer''"
  shows "(\<exists>lx1. match (Kind SUPPORTED) lx = (Inr (), lx1)) \<longleftrightarrow> map toLowerCase (getNextId lx) = ''supported''"
    and "(\<exists>lx1. match (Kind AUTHORIZATION) lx = (Inr (), lx1)) \<longleftrightarrow> map toLowerCase (getNextId lx) = ''authorization''"
    and "(\<exists>lx1. match (Kind TO) lx = (Inr (), lx1)) \<longleftrightarrow> map toLowerCase (getNextId lx) = ''to''"
  using assms by (auto simp: match_def Let_def lexerTables_def)

lemma match_Kind_cases:
  "(\<exists>lx1. match (Kind k) lx = (Inr (), lx1)
       \<and> ptr lx1 = ptr lx + length (getNextId lx) \<and> getNextId lx \<noteq> [])
   \<or> (\<exists>a. match (Kind k) lx = (Inl (ParseFailure UnexpectedToken (Kind k) a (ptr lx)), lx))"
  by (auto simp: match_def Let_def)

lemma headerName_mismatch:
  assumes "\<not> (\<exists>lx1. match (Kind k) lx = (Inr (), lx1))"
  shows "\<exists>a. headerName k lx = (Inl (ParseFailure HeaderNameMismatch (Kind k) a (ptr lx)), lx)"
  using assms match_Kind_cases [of k lx] by (auto simp: headerName_def)

lemma match_Kind_result:
  assumes "match (Kind k) lx = (Inr u, lx1)"
  shows "lx1 = (consume (length (getNextId lx)) lx)
     \<lparr>currentMatch := Some \<lparr>tokenType = k, tokenValue = getNextId lx, tokenOffset = ptr lx\<rparr>\<rparr>"
  using assms by (auto simp: match_def Let_def split: if_splits)

subsection \<open>The lexer operations on the input that is left\<close>

lemma rest_consume: "rest (consume n lx) = drop n (rest lx)"
  by (simp add: rest_def consume_def add.commute)

lemma rest_SPorHT: "rest (SPorHT lx) = dropWhile isLWS (rest lx)"
  by (simp add: SPorHT_def rest_consume dropWhile_eq_drop)

lemma rest_SPorHT_split: "rest lx = takeWhile isLWS (rest lx) @ rest (SPorHT lx)"
  by (simp add: rest_SPorHT)

lemma lookAhead_rest: "lookAhead 0 lx = Some c \<longleftrightarrow> (\<exists>r. rest lx = c # r)"
proof
  assume "lookAhead 0 lx = Some c"
  then have "ptr lx < length (buffer lx)" and "buffer lx ! ptr lx = c"
    by (auto simp: lookAhead_def split: if_splits)
  then have "rest lx = c # drop (Suc (ptr lx)) (buffer lx)"
    using Cons_nth_drop_Suc [of "ptr lx" "buffer lx"] by (simp add: rest_def)
  then show "\<exists>r. rest lx = c # r" by blast
next
  assume "\<exists>r. rest lx = c # r"
  then obtain r where r: "drop (ptr lx) (buffer lx) = c # r" by (auto simp: rest_def)
  then have lt: "ptr lx < length (buffer lx)" by (cases "ptr lx < length (buffer lx)") simp_all
  then have "hd (drop (ptr lx) (buffer lx)) = buffer lx ! ptr lx" by (rule hd_drop_conv_nth)
  with r lt show "lookAhead 0 lx = Some c" by (simp add: lookAhead_def)
qed

lemma match_Kind_rest:
  assumes "match (Kind k) lx = (Inr u, lx')"
  shows "rest lx = getNextId lx @ rest lx' \<and> getNextId lx \<noteq> []"
proof -
  from assms have id: "getNextId lx \<noteq> []"
    and lx': "lx' = (consume (length (getNextId lx)) lx)
      \<lparr>currentMatch := Some \<lparr>tokenType = k, tokenValue = getNextId lx, tokenOffset = ptr lx\<rparr>\<rparr>"
    by (auto simp: match_def Let_def split: if_splits)
  from lx' have "rest lx' = drop (length (getNextId lx)) (rest lx)"
    by (simp add: rest_def consume_def add.commute)
  then have "rest lx' = dropWhile isIdChar (rest lx)"
    by (simp add: getNextId_def dropWhile_eq_drop)
  with id show ?thesis by (simp add: getNextId_def)
qed

lemma match_Lit_rest:
  assumes "match (Lit c) lx = (Inr u, lx')"
  shows "rest lx = c # rest lx'"
proof -
  from assms have l: "lookAhead 0 lx = Some c" and lx': "lx' = consume 1 lx"
    by (auto simp: match_def split: if_splits)
  from l obtain r where "rest lx = c # r" by (auto simp: lookAhead_rest)
  with lx' show ?thesis by (simp add: rest_consume)
qed

subsection \<open>Comma-separated items\<close>

lemma splitOn_not_Nil [simp]: "splitOn c xs \<noteq> []"
  by (induction xs) (auto split: list.splits)

lemma splitOn_prefix:
  "c \<notin> set a \<Longrightarrow> splitOn c (a @ b) = (a @ hd (splitOn c b)) # tl (splitOn c b)"
  by (induction a) (auto split: list.splits)

lemma splitOn_single: "c \<notin> set a \<Longrightarrow> splitOn c a = [a]"
  using splitOn_prefix [of c a "[]"] by simp

lemma splitOn_sep: "c \<notin> set a \<Longrightarrow> splitOn c (a @ c # b) = a # splitOn c b"
  using splitOn_prefix [of c a "c # b"] by simp

lemma splitOn_append:
  "splitOn c (a @ b) =
     butlast (splitOn c a) @ (last (splitOn c a) @ hd (splitOn c b)) # tl (splitOn c b)"
proof (induction a)
  case Nil
  then show ?case by (cases "splitOn c b") simp_all
next
  case (Cons x a)
  show ?case
  proof (cases "x = c")
    case True
    with Cons show ?thesis by simp
  next
    case False
    obtain h t where A: "splitOn c a = h # t" by (cases "splitOn c a") simp_all
    show ?thesis
    proof (cases t)
      case Nil
      with A Cons False show ?thesis by simp
    next
      case (Cons h' t')
      with A Cons.IH False show ?thesis by simp
    qed
  qed
qed

lemma set_splitOn:
  "x \<in> set v \<Longrightarrow> x = c \<or> (\<exists>i \<in> set (splitOn c v). x \<in> set i)"
  by (induction v) (auto split: list.splits)

lemma not_id_chars:
  "\<not> isIdChar CHR '',''" "\<not> isIdChar CHR ''\<newline>''" "\<not> isIdChar CHR '':''"
  "\<not> isLWS CHR '',''" "\<not> isLWS CHR ''\<newline>''" "\<not> isLWS CHR '':''"
  by (simp_all add: isIdChar_def isLetter_def isDigit_def isLWS_def)

lemma someTags_chars:
  assumes "someTags i"
  shows "CHR '','' \<notin> set i" and "CHR ''\<newline>'' \<notin> set i"
  using assms not_id_chars by (auto simp: someTags_def list_all_iff)

lemma someTags_append: "someTags a \<Longrightarrow> someTags b \<Longrightarrow> someTags (a @ b)"
  by (auto simp: someTags_def list_ex_iff)

lemma someTags_blank_prefix: "list_all isLWS w \<Longrightarrow> someTags a \<Longrightarrow> someTags (w @ a)"
  by (auto simp: someTags_def list_ex_iff list_all_iff)

lemma someTags_items_append:
  assumes "list_all someTags (splitOn c a)" and "list_all someTags (splitOn c b)"
  shows "list_all someTags (splitOn c (a @ b))"
proof -
  have "last (splitOn c a) \<in> set (splitOn c a)" "hd (splitOn c b) \<in> set (splitOn c b)"
    by simp_all
  with assms have m: "someTags (last (splitOn c a) @ hd (splitOn c b))"
    by (auto simp: list_all_iff intro: someTags_append)
  have "set (butlast (splitOn c a)) \<subseteq> set (splitOn c a)" "set (tl (splitOn c b)) \<subseteq> set (splitOn c b)"
    by (auto dest: in_set_butlastD list.set_sel(2) [OF splitOn_not_Nil])
  with assms m show ?thesis
    by (subst splitOn_append) (auto simp: list_all_iff)
qed

lemma someTags_items_newline:
  assumes "list_all someTags (splitOn CHR '','' v)"
  shows "CHR ''\<newline>'' \<notin> set v"
proof
  assume "CHR ''\<newline>'' \<in> set v"
  from set_splitOn [OF this, of "CHR '',''"] obtain i
    where "i \<in> set (splitOn CHR '','' v)" "CHR ''\<newline>'' \<in> set i"
    by auto
  with assms someTags_chars(2) [of i] show False by (auto simp: list_all_iff)
qed

subsection \<open>The input a successful SupportedParser.parse has consumed\<close>

text \<open>Optional whitespace, an option-tag, optional whitespace.\<close>

lemma read_tag:
  assumes "match (Kind ID) (SPorHT lx) = (Inr u, lx1)"
  shows "\<exists>item. rest lx = item @ rest (SPorHT lx1) \<and> someTags item"
proof -
  let ?w = "takeWhile isLWS (rest lx)"
  let ?t = "getNextId (SPorHT lx)"
  let ?w1 = "takeWhile isLWS (rest lx1)"
  from match_Kind_rest [OF assms]
  have t: "rest (SPorHT lx) = ?t @ rest lx1" "?t \<noteq> []" by simp_all
  have "rest lx = ?w @ rest (SPorHT lx)" by (rule rest_SPorHT_split)
  also have "rest (SPorHT lx) = ?t @ ?w1 @ rest (SPorHT lx1)"
    using t(1) rest_SPorHT_split [of lx1] by simp
  finally have r: "rest lx = (?w @ ?t @ ?w1) @ rest (SPorHT lx1)" by simp
  have w: "list_all isLWS ?w" "list_all isLWS ?w1"
    by (auto simp: list_all_iff dest: set_takeWhileD)
  have ta: "list_all isIdChar ?t"
    by (auto simp: getNextId_def list_all_iff dest: set_takeWhileD)
  with t(2) have "list_ex isIdChar ?t" by (cases ?t) simp_all
  with w ta have "someTags (?w @ ?t @ ?w1)"
    by (auto simp: someTags_def list_all_iff list_ex_iff)
  with r show ?thesis by blast
qed

lemma parse_commas_input:
  assumes "parse_commas fresh acc lx = Some (Inr l, lx')"
  shows "\<exists>v. rest lx = v @ rest lx'
     \<and> (v = [] \<or> (\<exists>u. v = CHR '','' # u \<and> list_all someTags (splitOn CHR '','' u)))"
  using assms
proof (induction rule: parse_commas_success_induct)
  case (stop acc lx)
  then show ?case by simp
next
  case (step acc lx lx2 l lx')
  from step(1) obtain r where r: "rest lx = CHR '','' # r" by (auto simp: lookAhead_rest)
  then have r1: "rest (consume 1 lx) = r" by (simp add: rest_consume)
  from read_tag [OF step(2)] r1 obtain item
    where i: "r = item @ rest (SPorHT lx2)" "someTags item" by auto
  from step.IH obtain v where v: "rest (SPorHT lx2) = v @ rest lx'"
    "v = [] \<or> (\<exists>u. v = CHR '','' # u \<and> list_all someTags (splitOn CHR '','' u))"
    by blast
  have "list_all someTags (splitOn CHR '','' (item @ v))"
  proof (cases v)
    case Nil
    with i someTags_chars(1) [OF i(2)] show ?thesis by (simp add: splitOn_single)
  next
    case (Cons c u)
    with v(2) have "c = CHR '',''" "list_all someTags (splitOn CHR '','' u)" by auto
    with Cons i someTags_chars(1) [OF i(2)] show ?thesis by (simp add: splitOn_sep)
  qed
  moreover from r i v have "rest lx = (CHR '','' # item @ v) @ rest lx'" by simp
  ultimately show ?case by blast
qed

lemma parse_tags_input:
  assumes "parse_tags fresh acc lx = Some (Inr l, lx')"
  shows "\<exists>v. rest lx = v @ rest lx' \<and> (v = [] \<or> list_all someTags (splitOn CHR '','' v))"
  using assms
proof (induction rule: parse_tags_success_induct)
  case (stop acc lx)
  then show ?case by simp
next
  case (step acc lx lx1 acc2 lx2 l lx')
  from read_tag [OF step(2)] obtain item
    where i: "rest lx = item @ rest (SPorHT lx1)" "someTags item" by auto
  from parse_commas_input [OF step(3)] obtain v1 where v1: "rest (SPorHT lx1) = v1 @ rest lx2"
    "v1 = [] \<or> (\<exists>u. v1 = CHR '','' # u \<and> list_all someTags (splitOn CHR '','' u))"
    by blast
  from step.IH obtain v2 where v2: "rest lx2 = v2 @ rest lx'"
    "v2 = [] \<or> list_all someTags (splitOn CHR '','' v2)"
    by blast
  have g: "list_all someTags (splitOn CHR '','' (item @ v1))"
  proof (cases v1)
    case Nil
    with i someTags_chars(1) [OF i(2)] show ?thesis by (simp add: splitOn_single)
  next
    case (Cons c u)
    with v1(2) have "c = CHR '',''" "list_all someTags (splitOn CHR '','' u)" by auto
    with Cons i someTags_chars(1) [OF i(2)] show ?thesis by (simp add: splitOn_sep)
  qed
  have "list_all someTags (splitOn CHR '','' ((item @ v1) @ v2))"
  proof (cases "v2 = []")
    case True
    with g show ?thesis by simp
  next
    case False
    with v2(2) have "list_all someTags (splitOn CHR '','' v2)" by simp
    with g show ?thesis by (rule someTags_items_append)
  qed
  moreover from i v1 v2 have "rest lx = ((item @ v1) @ v2) @ rest lx'" by simp
  ultimately show ?case by blast
qed

lemma headerName_success:
  assumes "headerName k lx = (Inr u, lx1)"
  shows "\<exists>lxa lxb. match (Kind k) lx = (Inr (), lxa)
     \<and> match (Lit CHR '':'') lxa = (Inr (), lxb) \<and> lx1 = SPorHT lxb"
  using assms by (auto simp: headerName_def split: prod.splits sum.splits)

lemma someTags_items_blank_prefix:
  assumes "list_all isLWS w" and "list_all someTags (splitOn CHR '','' v)"
  shows "list_all someTags (splitOn CHR '','' (w @ v))"
proof -
  from assms(1) not_id_chars(4) have "CHR '','' \<notin> set w" by (auto simp: list_all_iff)
  then have "splitOn CHR '','' (w @ v)
      = (w @ hd (splitOn CHR '','' v)) # tl (splitOn CHR '','' v)"
    by (rule splitOn_prefix)
  moreover obtain h t where "splitOn CHR '','' v = h # t"
    by (cases "splitOn CHR '','' v") simp_all
  ultimately show ?thesis using assms by (simp add: someTags_blank_prefix)
qed

lemma SupportedParser_parse_conforms:
  assumes "SupportedParser_parse_string fresh s = Some (Inr l, lx')"
  shows "conforms someTags s"
proof -
  let ?lx = "Lexer_new ''command_keywordLexer'' s"
  have lx: "rest ?lx = s" "currentLexerName ?lx = ''command_keywordLexer''"
    by (simp_all add: rest_def Lexer_new_def)
  from assms obtain lx1 where h: "headerName SUPPORTED ?lx = (Inr (), lx1)"
    and t: "parse_tags fresh [] lx1 = Some (Inr l, lx')"
    by (auto simp: SupportedParser_parse_string_def SupportedParser_parse_def
        split: prod.splits sum.splits)
  from headerName_success [OF h] obtain lxa lxb
    where ma: "match (Kind SUPPORTED) ?lx = (Inr (), lxa)"
      and mb: "match (Lit CHR '':'') lxa = (Inr (), lxb)"
      and lx1: "lx1 = SPorHT lxb"
    by blast
  let ?name = "getNextId ?lx"
  let ?w = "takeWhile isLWS (rest lxb)"
  from ma match_keyword_iff(1) [OF lx(2)] have name: "map toLowerCase ?name = ''supported''"
    by blast
  from match_Kind_rest [OF ma] match_Lit_rest [OF mb] lx(1)
  have s: "s = ?name @ CHR '':'' # rest lxb" by simp
  have "\<forall>c \<in> set ?name. isIdChar c" by (auto simp: getNextId_def dest: set_takeWhileD)
  with not_id_chars(3) have "\<forall>c \<in> set ?name. c \<noteq> CHR '':''" by auto
  then have tw: "takeWhile (\<lambda>c. c \<noteq> CHR '':'') (?name @ CHR '':'' # rest lxb) = ?name"
    by (simp add: takeWhile_tail)
  from parse_tags_input [OF t] obtain v where v: "rest lx1 = v @ rest lx'"
    "v = [] \<or> list_all someTags (splitOn CHR '','' v)"
    by blast
  from parse_tags_newline [OF t] obtain r where r: "rest lx' = CHR ''\<newline>'' # r"
    by (auto simp: lookAhead_rest)
  from lx1 v r rest_SPorHT_split [of lxb]
  have after: "rest lxb = (?w @ v) @ CHR ''\<newline>'' # r" by simp
  have w: "list_all isLWS ?w" by (auto simp: list_all_iff dest: set_takeWhileD)
  with not_id_chars(5) have "CHR ''\<newline>'' \<notin> set ?w" by (auto simp: list_all_iff)
  moreover from v(2) have "CHR ''\<newline>'' \<notin> set v" by (auto dest: someTags_items_newline)
  ultimately have "\<forall>c \<in> set (?w @ v). c \<noteq> CHR ''\<newline>''" by auto
  then have tv: "takeWhile (\<lambda>c. c \<noteq> CHR ''\<newline>'') ((?w @ v) @ CHR ''\<newline>'' # r) = ?w @ v"
    by (simp only: takeWhile_tail [of "\<lambda>c. c \<noteq> CHR ''\<newline>''"] takeWhile_eq_all_conv [THEN iffD2] simp_thms)
  have ok: "optionTagList someTags (?w @ v)"
  proof (cases "v = []")
    case True
    with w show ?thesis by (simp add: optionTagList_def)
  next
    case False
    with v(2) have "list_all someTags (splitOn CHR '','' v)" by simp
    with w have "list_all someTags (splitOn CHR '','' (?w @ v))"
      by (rule someTags_items_blank_prefix)
    then show ?thesis by (simp add: optionTagList_def)
  qed
  have c1: "takeWhile (\<lambda>c. c \<noteq> CHR '':'') s = ?name"
    using arg_cong [OF s, of "takeWhile (\<lambda>c. c \<noteq> CHR '':'')"] tw by simp
  have c2: "length ?name < length s"
    using arg_cong [OF s, of length] by simp
  have c3: "drop (Suc (length ?name)) s = rest lxb"
    using arg_cong [OF s, of "drop (Suc (length ?name))"] by simp
  have c4: "takeWhile (\<lambda>c. c \<noteq> CHR ''\<newline>'') (rest lxb) = ?w @ v"
    using arg_cong [OF after, of "takeWhile (\<lambda>c. c \<noteq> CHR ''\<newline>'')"] tv by simp
  have c5: "length (?w @ v) < length (rest lxb)"
    using arg_cong [OF after, of length] by simp
  from name c2 c5 ok show ?thesis
    by (simp only: conforms_def Let_def c1 c3 c4 simp_thms)
qed

subsection \<open>Every input of the wider grammar is accepted\<close>

text \<open>
  The converse of \<open>SupportedParser_parse_conforms\<close>: the grammar whose items are one or
  more option-tags separated by whitespace is exactly the set of inputs on which
  SupportedParser.parse returns a list.
\<close>

lemma takeWhile_stop: "\<not> P x \<Longrightarrow> takeWhile P (ys @ x # r) = takeWhile P ys"
  by (induction ys) simp_all

lemma dropWhile_stop: "\<not> P x \<Longrightarrow> dropWhile P (ys @ x # r) = dropWhile P ys @ x # r"
  by (induction ys) simp_all

lemma hd_splitOn: "hd (splitOn c x) = takeWhile (\<lambda>a. a \<noteq> c) x"
  by (induction x) (auto split: list.splits)

lemma afterTag_iff:
  "afterTag x \<longleftrightarrow>
     x = [] \<or> list_all someTags (splitOn CHR '','' x)
     \<or> (\<exists>y. x = CHR '','' # y \<and> list_all someTags (splitOn CHR '','' y))"
  by (cases x) (auto simp: afterTag_def)

lemma id_not_LWS: "isIdChar c \<Longrightarrow> \<not> isLWS c"
  by (auto simp: isLWS_def isIdChar_def isLetter_def isDigit_def)

lemma someTags_first_tag:
  assumes "someTags i"
  shows "takeWhile isIdChar (dropWhile isLWS (i @ rst)) \<noteq> []"
proof -
  from assms obtain c where c: "c \<in> set i" "isIdChar c"
    by (auto simp: someTags_def list_ex_iff)
  then have d: "dropWhile isLWS (i @ rst) = dropWhile isLWS i @ rst"
    by (auto intro: dropWhile_append1 dest: id_not_LWS)
  from c have ne: "dropWhile isLWS i \<noteq> []"
    by (auto simp: dropWhile_eq_Nil_conv dest: id_not_LWS)
  then have "\<not> isLWS (hd (dropWhile isLWS i))" by (rule hd_dropWhile)
  moreover from ne have "hd (dropWhile isLWS i) \<in> set i"
    by (meson hd_in_set set_dropWhileD)
  moreover from assms have "\<forall>d \<in> set i. isIdChar d \<or> isLWS d"
    by (auto simp: someTags_def list_all_iff)
  ultimately have "isIdChar (hd (dropWhile isLWS i))" by blast
  with ne d show ?thesis by (cases "dropWhile isLWS i") simp_all
qed

lemma afterTag_rest:
  assumes nc: "CHR '','' \<notin> set p"
    and items: "list_all someTags (splitOn CHR '','' (p @ x2))"
    and nl: "x2 = [] \<or> \<not> isLWS (hd x2)"
  shows "afterTag x2"
proof (cases x2)
  case Nil
  then show ?thesis by (simp add: afterTag_iff)
next
  case (Cons c y)
  with nl have nl: "\<not> isLWS c" by simp
  show ?thesis
  proof (cases "c = CHR '',''")
    case True
    with Cons items splitOn_sep [OF nc, of y]
    have "list_all someTags (splitOn CHR '','' y)" by simp
    with True Cons show ?thesis by (simp add: afterTag_iff)
  next
    case False
    obtain h t' where S: "splitOn CHR '','' y = h # t'"
      by (cases "splitOn CHR '','' y") simp_all
    with False Cons have S2: "splitOn CHR '','' x2 = (c # h) # t'" by simp
    with splitOn_prefix [OF nc, of x2] items
    have st: "someTags (p @ c # h)" "list_all someTags t'" by simp_all
    from st(1) have "\<forall>d \<in> set (c # h). isIdChar d \<or> isLWS d"
      by (auto simp: someTags_def list_all_iff)
    with nl have "someTags (c # h)" by (auto simp: someTags_def list_all_iff)
    with st(2) S2 show ?thesis by (simp add: afterTag_iff)
  qed
qed

lemma someTags_items_tag:
  assumes "list_all someTags (splitOn CHR '','' x)"
  shows "takeWhile isIdChar (dropWhile isLWS x) \<noteq> []
    \<and> afterTag (dropWhile isLWS (dropWhile isIdChar (dropWhile isLWS x)))
    \<and> length (dropWhile isLWS (dropWhile isIdChar (dropWhile isLWS x))) < length x"
proof -
  let ?x1 = "dropWhile isLWS x"
  let ?t = "takeWhile isIdChar ?x1"
  let ?x2 = "dropWhile isLWS (dropWhile isIdChar ?x1)"
  let ?p = "takeWhile isLWS x @ ?t @ takeWhile isLWS (dropWhile isIdChar ?x1)"
  have x: "?p @ ?x2 = x" by simp
  have "\<forall>c \<in> set ?p. isIdChar c \<or> isLWS c" by (auto dest: set_takeWhileD)
  with not_id_chars(1,4) have nc: "CHR '','' \<notin> set ?p" by blast
  from assms have "someTags (hd (splitOn CHR '','' x))"
    by (cases "splitOn CHR '','' x") simp_all
  then have "someTags (takeWhile (\<lambda>a. a \<noteq> CHR '','') x)" by (simp add: hd_splitOn)
  from someTags_first_tag [OF this, of "dropWhile (\<lambda>a. a \<noteq> CHR '','') x"]
  have t: "?t \<noteq> []" by simp
  have len: "length ?x2 < length x"
  proof -
    from t have "0 < length ?p" by simp
    moreover have "length (?p @ ?x2) = length x" by (simp only: x)
    ultimately show ?thesis by (simp only: length_append)
  qed
  have nl: "?x2 = [] \<or> \<not> isLWS (hd ?x2)" using hd_dropWhile [of isLWS] by blast
  from assms have "list_all someTags (splitOn CHR '','' (?p @ ?x2))" by (simp only: x)
  with nc have "afterTag ?x2" using nl by (rule afterTag_rest)
  with t len show ?thesis by blast
qed

lemma match_ID_ok:
  assumes "getNextId lx \<noteq> []"
  shows "\<exists>lx1. match (Kind ID) lx = (Inr (), lx1)"
  using assms by (simp add: match_def Let_def)

lemma lookAhead_line: "rest lx = x @ c # r \<Longrightarrow> lookAhead 0 lx = Some (hd (x @ [c]))"
  by (cases x) (auto simp: lookAhead_rest)

lemma read_tag_ok:
  assumes r: "rest lx = x @ CHR ''\<newline>'' # r"
    and items: "list_all someTags (splitOn CHR '','' x)"
  shows "\<exists>lx1 x2. match (Kind ID) (SPorHT lx) = (Inr (), lx1)
     \<and> rest (SPorHT lx1) = x2 @ CHR ''\<newline>'' # r \<and> afterTag x2 \<and> length x2 < length x"
proof -
  let ?x1 = "dropWhile isLWS x"
  let ?x2 = "dropWhile isLWS (dropWhile isIdChar ?x1)"
  note st = someTags_items_tag [OF items]
  from r have r1: "rest (SPorHT lx) = ?x1 @ CHR ''\<newline>'' # r"
    by (simp add: rest_SPorHT dropWhile_stop not_id_chars)
  then have "getNextId (SPorHT lx) = takeWhile isIdChar ?x1"
    by (simp add: getNextId_def takeWhile_stop not_id_chars)
  with st have "getNextId (SPorHT lx) \<noteq> []" by simp
  then obtain lx1 where m: "match (Kind ID) (SPorHT lx) = (Inr (), lx1)"
    using match_ID_ok by blast
  from match_Kind_rest [OF m] have "rest lx1 = dropWhile isIdChar (rest (SPorHT lx))"
    by (metis getNextId_def takeWhile_dropWhile_id append_same_eq same_append_eq)
  with r1 have "rest lx1 = dropWhile isIdChar ?x1 @ CHR ''\<newline>'' # r"
    by (simp add: dropWhile_stop not_id_chars)
  then have "rest (SPorHT lx1) = ?x2 @ CHR ''\<newline>'' # r"
    by (simp add: rest_SPorHT dropWhile_stop not_id_chars)
  with m st show ?thesis by blast
qed

lemma parse_commas_complete:
  assumes "rest lx = x @ CHR ''\<newline>'' # r" and "afterTag x"
  shows "\<exists>l lx' z. parse_commas fresh acc lx = Some (Inr l, lx')
     \<and> rest lx' = z @ CHR ''\<newline>'' # r
     \<and> (z = [] \<or> list_all someTags (splitOn CHR '','' z)) \<and> length z \<le> length x"
  using assms
proof (induction x arbitrary: lx acc rule: length_induct)
  case (1 x)
  note r = \<open>rest lx = x @ CHR ''\<newline>'' # r\<close>
  show ?case
  proof (cases "lookAhead 0 lx = Some CHR '',''")
    case False
    with lookAhead_line [OF r] have nc: "x = [] \<or> hd x \<noteq> CHR '',''" by (cases x) auto
    with \<open>afterTag x\<close> have "x = [] \<or> list_all someTags (splitOn CHR '','' x)"
      by (auto simp: afterTag_iff)
    with False r show ?thesis by (simp add: parse_commas_stop)
  next
    case True
    with lookAhead_line [OF r] obtain y where y: "x = CHR '','' # y" by (cases x) auto
    with \<open>afterTag x\<close> have items: "list_all someTags (splitOn CHR '','' y)"
      by (auto simp: afterTag_iff someTags_def)
    from r y have "rest (consume 1 lx) = y @ CHR ''\<newline>'' # r" by (simp add: rest_consume)
    from read_tag_ok [OF this items] obtain lx2 x2
      where m: "match (Kind ID) (SPorHT (consume 1 lx)) = (Inr (), lx2)"
        and r2: "rest (SPorHT lx2) = x2 @ CHR ''\<newline>'' # r"
        and a2: "afterTag x2" and l2: "length x2 < length y"
      by blast
    from l2 y have "length x2 < length x" by simp
    with "1.IH" r2 a2 obtain l lx' z
      where "parse_commas fresh (add (setOptionTag (getNextId (SPorHT (consume 1 lx))) fresh) acc)
           (SPorHT lx2) = Some (Inr l, lx')"
        "rest lx' = z @ CHR ''\<newline>'' # r"
        "z = [] \<or> list_all someTags (splitOn CHR '','' z)" "length z \<le> length x2"
      by blast
    with l2 y show ?thesis by (auto simp: parse_commas_step [OF True m])
  qed
qed

lemma parse_tags_complete:
  assumes "rest lx = x @ CHR ''\<newline>'' # r"
    and "x = [] \<or> list_all someTags (splitOn CHR '','' x)"
  shows "\<exists>l lx'. parse_tags fresh acc lx = Some (Inr l, lx')"
  using assms
proof (induction x arbitrary: lx acc rule: length_induct)
  case (1 x)
  note r = \<open>rest lx = x @ CHR ''\<newline>'' # r\<close>
  show ?case
  proof (cases "x = []")
    case True
    with r have "lookAhead 0 lx = Some CHR ''\<newline>''" by (simp add: lookAhead_rest)
    then show ?thesis by (simp add: parse_tags_stop)
  next
    case False
    with "1.prems" have items: "list_all someTags (splitOn CHR '','' x)" by simp
    then have "CHR ''\<newline>'' \<notin> set x" by (rule someTags_items_newline)
    with False lookAhead_line [OF r] have la: "lookAhead 0 lx \<noteq> Some CHR ''\<newline>''"
      by (cases x) auto
    from read_tag_ok [OF r items] obtain lx1 x2
      where m: "match (Kind ID) (SPorHT lx) = (Inr (), lx1)"
        and r2: "rest (SPorHT lx1) = x2 @ CHR ''\<newline>'' # r"
        and a2: "afterTag x2" and l2: "length x2 < length x"
      by blast
    let ?acc1 = "add (setOptionTag (getNextId (SPorHT lx)) (setHeaderName SUPPORTED_name fresh)) acc"
    from parse_commas_complete [OF r2 a2, of fresh ?acc1] obtain acc2 lx2 z
      where c: "parse_commas fresh ?acc1 (SPorHT lx1) = Some (Inr acc2, lx2)"
        and rz: "rest lx2 = z @ CHR ''\<newline>'' # r"
        and vz: "z = [] \<or> list_all someTags (splitOn CHR '','' z)" and lz: "length z \<le> length x2"
      by blast
    from lz l2 have "length z < length x" by simp
    with "1.IH" rz vz obtain l lx' where "parse_tags fresh acc2 lx2 = Some (Inr l, lx')"
      by blast
    with c show ?thesis by (simp add: parse_tags_step [OF la m])
  qed
qed

lemma split_at_first:
  "length (takeWhile (\<lambda>a. a \<noteq> c) s) < length s
     \<Longrightarrow> takeWhile (\<lambda>a. a \<noteq> c) s @ c # drop (Suc (length (takeWhile (\<lambda>a. a \<noteq> c) s))) s = s"
  by (induction s) auto

lemma toLowerCase_letter:
  assumes "isLetter (toLowerCase c)"
  shows "isLetter c"
proof (rule ccontr)
  assume n: "\<not> isLetter c"
  then have "c \<notin> set ''ABCDEFGHIJKLMNOPQRSTUVWXYZ''" by (simp add: isLetter_def)
  then have "map_of (zip ''ABCDEFGHIJKLMNOPQRSTUVWXYZ'' ''abcdefghijklmnopqrstuvwxyz'') c = None"
    using map_of_zip_is_None
      [of "''ABCDEFGHIJKLMNOPQRSTUVWXYZ''" "''abcdefghijklmnopqrstuvwxyz''" c]
    by simp
  then have "toLowerCase c = c" by (simp add: toLowerCase_def)
  with assms n show False by simp
qed

lemma keyword_id_chars:
  assumes "map toLowerCase name = ''supported''"
  shows "list_all isIdChar name"
proof -
  have "\<forall>c \<in> set name. isLetter (toLowerCase c)"
  proof
    fix c assume "c \<in> set name"
    then have "toLowerCase c \<in> set (map toLowerCase name)" by simp
    with assms show "isLetter (toLowerCase c)" by (auto simp: isLetter_def)
  qed
  then show ?thesis by (auto simp: list_all_iff isIdChar_def dest: toLowerCase_letter)
qed

lemma someTags_items_strip:
  assumes "list_all someTags (splitOn CHR '','' v)"
  shows "list_all someTags (splitOn CHR '','' (dropWhile isLWS v))"
proof -
  let ?w = "takeWhile isLWS v"
  let ?x = "dropWhile isLWS v"
  have w: "\<forall>c \<in> set ?w. isLWS c" by (auto dest: set_takeWhileD)
  with not_id_chars(4) have "CHR '','' \<notin> set ?w" by blast
  from splitOn_prefix [OF this, of ?x] assms
  have "list_all someTags ((?w @ hd (splitOn CHR '','' ?x)) # tl (splitOn CHR '','' ?x))"
    by simp
  then have a: "someTags (?w @ hd (splitOn CHR '','' ?x))"
    and b: "list_all someTags (tl (splitOn CHR '','' ?x))" by simp_all
  from a w have "someTags (hd (splitOn CHR '','' ?x))"
    by (auto simp: someTags_def list_all_iff list_ex_iff dest: id_not_LWS)
  with b show ?thesis by (cases "splitOn CHR '','' ?x") simp_all
qed

lemma SupportedParser_parse_accepts:
  assumes "conforms someTags s"
  shows "\<exists>l lx. SupportedParser_parse_string fresh s = Some (Inr l, lx)"
proof -
  define name where "name = takeWhile (\<lambda>c. c \<noteq> CHR '':'') s"
  define after where "after = drop (Suc (length name)) s"
  define v where "v = takeWhile (\<lambda>c. c \<noteq> CHR ''\<newline>'') after"
  define r where "r = drop (Suc (length v)) after"
  from assms have n: "map toLowerCase name = ''supported''" and ln: "length name < length s"
    and lv: "length v < length after" and ok: "optionTagList someTags v"
    by (simp_all add: conforms_def Let_def name_def after_def v_def)
  from ln have s: "name @ CHR '':'' # after = s"
    unfolding after_def name_def by (rule split_at_first)
  from lv have a: "v @ CHR ''\<newline>'' # r = after"
    unfolding r_def v_def by (rule split_at_first)
  let ?lx = "Lexer_new ''command_keywordLexer'' s"
  have lx: "rest ?lx = name @ CHR '':'' # after" "currentLexerName ?lx = ''command_keywordLexer''"
    by (simp_all add: rest_def Lexer_new_def s)
  from keyword_id_chars [OF n] have "takeWhile isIdChar name = name"
    by (simp add: list_all_iff)
  with lx(1) have id: "getNextId ?lx = name"
    by (simp add: getNextId_def takeWhile_stop not_id_chars)
  with n match_keyword_iff(1) [OF lx(2)] obtain lxa
    where ma: "match (Kind SUPPORTED) ?lx = (Inr (), lxa)" by auto
  from match_Kind_rest [OF ma] lx(1) id have ra: "rest lxa = CHR '':'' # after" by simp
  then have "lookAhead 0 lxa = Some CHR '':''" by (simp add: lookAhead_rest)
  then have mb: "match (Lit CHR '':'') lxa = (Inr (), consume 1 lxa)" by (rule match_Lit)
  let ?lx1 = "SPorHT (consume 1 lxa)"
  from ma mb have h: "headerName SUPPORTED ?lx = (Inr (), ?lx1)" by (simp add: headerName_def)
  from ra have "rest (consume 1 lxa) = v @ CHR ''\<newline>'' # r" by (simp add: rest_consume a)
  then have r1: "rest ?lx1 = dropWhile isLWS v @ CHR ''\<newline>'' # r"
    by (simp add: rest_SPorHT dropWhile_stop not_id_chars)
  have "dropWhile isLWS v = [] \<or> list_all someTags (splitOn CHR '','' (dropWhile isLWS v))"
  proof (cases "list_all isLWS v")
    case True
    then show ?thesis by (simp add: list_all_iff)
  next
    case False
    with ok have "list_all someTags (splitOn CHR '','' v)" by (simp add: optionTagList_def)
    then show ?thesis by (simp add: someTags_items_strip)
  qed
  from parse_tags_complete [OF r1 this, of fresh "[]"] h show ?thesis
    by (simp add: SupportedParser_parse_string_def SupportedParser_parse_def)
qed

subsection \<open>The elements of the returned list, tag by tag\<close>

text \<open>
  The two loops read the option-tags of the header value one after the other; the inner
  loop reads those that follow a comma, the outer loop the others.
\<close>

lemma tagsFrom_tag:
  assumes "takeWhile isIdChar xs \<noteq> []"
  shows "tagsFrom ac xs = (ac, takeWhile isIdChar xs) # tagsFrom False (dropWhile isIdChar xs)"
proof (cases xs)
  case Nil
  with assms show ?thesis by simp
next
  case (Cons c cs)
  with assms have "isIdChar c" by (auto split: if_splits)
  with Cons show ?thesis by (simp del: takeWhile.simps dropWhile.simps)
qed

lemma tagsFrom_blank: "tagsFrom ac (dropWhile isLWS xs) = tagsFrom ac xs"
proof (induction xs)
  case Nil
  show ?case by simp
next
  case (Cons c cs)
  show ?case
  proof (cases "isLWS c")
    case True
    then have "\<not> isIdChar c" "c \<noteq> CHR '',''"
      using id_not_LWS not_id_chars(4) by auto
    with True Cons show ?thesis by simp
  next
    case False
    then show ?thesis by simp
  qed
qed

lemma tagsFrom_comma: "tagsFrom ac (CHR '','' # xs) = tagsFrom True xs"
  by (simp add: not_id_chars)

lemma tagsFrom_stop:
  assumes "\<not> isIdChar c"
  shows "\<exists>a. tagsFrom ac (x @ c # r) = tagsFrom ac x @ tagsFrom a (c # r)"
proof (induction ac x rule: tagsFrom.induct)
  case (1 ac)
  show ?case by (intro exI [of _ ac]) simp
next
  case (2 ac d ds)
  show ?case
  proof (cases "isIdChar d")
    case True
    from 2(1) [OF True] obtain a
      where a: "tagsFrom False (dropWhile isIdChar (d # ds) @ c # r)
          = tagsFrom False (dropWhile isIdChar (d # ds)) @ tagsFrom a (c # r)"
      by blast
    have t: "takeWhile isIdChar ((d # ds) @ c # r) = takeWhile isIdChar (d # ds)"
      using assms by (rule takeWhile_stop)
    have dd: "dropWhile isIdChar ((d # ds) @ c # r) = dropWhile isIdChar (d # ds) @ c # r"
      using assms by (rule dropWhile_stop)
    from True have ne: "takeWhile isIdChar ((d # ds) @ c # r) \<noteq> []"
      "takeWhile isIdChar (d # ds) \<noteq> []" by simp_all
    have "tagsFrom ac ((d # ds) @ c # r)
        = (ac, takeWhile isIdChar (d # ds)) # tagsFrom False (dropWhile isIdChar (d # ds) @ c # r)"
      using tagsFrom_tag [OF ne(1), of ac] by (simp only: t dd)
    also have "\<dots> = tagsFrom ac (d # ds) @ tagsFrom a (c # r)"
      using tagsFrom_tag [OF ne(2), of ac] a by simp
    finally show ?thesis by blast
  next
    case False
    from 2(2) [OF False] obtain a
      where "tagsFrom (ac \<or> d = CHR '','') (ds @ c # r)
          = tagsFrom (ac \<or> d = CHR '','') ds @ tagsFrom a (c # r)"
      by blast
    with False show ?thesis by auto
  qed
qed

lemma length_tagsFrom: "length (tagsFrom a x) = length (tagsFrom b x)"
proof (induction a x arbitrary: b rule: tagsFrom.induct)
  case (1 a)
  show ?case by simp
next
  case (2 a c cs)
  then show ?case by (cases "isIdChar c") (simp_all del: takeWhile.simps dropWhile.simps)
qed

lemma tagsFrom_SPorHT: "tagsFrom ac (rest (SPorHT lx)) = tagsFrom ac (rest lx)"
  by (simp add: rest_SPorHT tagsFrom_blank)

lemma tagsFrom_match:
  assumes "match (Kind ID) lx = (Inr u, lx1)"
  shows "tagsFrom ac (rest lx) = (ac, getNextId lx) # tagsFrom False (rest lx1)"
proof -
  from match_Kind_rest [OF assms] have r: "rest lx = getNextId lx @ rest lx1"
    and ne: "getNextId lx \<noteq> []" by simp_all
  then have "rest lx1 = dropWhile isIdChar (rest lx)"
    by (metis getNextId_def takeWhile_dropWhile_id same_append_eq)
  with ne tagsFrom_tag [of "rest lx" ac] show ?thesis by (simp add: getNextId_def)
qed

lemma tagsFrom_read_tag:
  assumes "match (Kind ID) (SPorHT lx) = (Inr u, lx1)"
  shows "tagsFrom ac (rest lx)
     = (ac, getNextId (SPorHT lx)) # tagsFrom False (rest (SPorHT lx1))"
  using tagsFrom_match [OF assms, of ac] by (simp add: tagsFrom_SPorHT)

lemma parse_commas_tags:
  assumes "parse_commas fresh acc lx = Some (Inr l, lx')"
  shows "\<exists>ts. l = acc @ map (element fresh) ts
     \<and> tagsFrom False (rest lx) = ts @ tagsFrom False (rest lx')"
  using assms
proof (induction rule: parse_commas_success_induct)
  case (stop acc lx)
  show ?case by (intro exI [of _ "[]"]) simp
next
  case (step acc lx lx2 l lx')
  let ?t = "getNextId (SPorHT (consume 1 lx))"
  from step.IH obtain ts where ts: "l = add (setOptionTag ?t fresh) acc @ map (element fresh) ts"
    "tagsFrom False (rest (SPorHT lx2)) = ts @ tagsFrom False (rest lx')"
    by blast
  from step(1) obtain r where r: "rest lx = CHR '','' # r" by (auto simp: lookAhead_rest)
  then have "rest lx = CHR '','' # rest (consume 1 lx)" by (simp add: rest_consume)
  then have "tagsFrom False (rest lx) = tagsFrom True (rest (consume 1 lx))"
    by (simp only: tagsFrom_comma)
  also have "\<dots> = (True, ?t) # tagsFrom False (rest (SPorHT lx2))"
    using step(2) by (rule tagsFrom_read_tag)
  finally have "tagsFrom False (rest lx) = ((True, ?t) # ts) @ tagsFrom False (rest lx')"
    using ts(2) by simp
  moreover from ts(1) have "l = acc @ map (element fresh) ((True, ?t) # ts)"
    by (simp add: add_def element_def)
  ultimately show ?case by blast
qed

lemma parse_tags_tags:
  assumes "parse_tags fresh acc lx = Some (Inr l, lx')"
  shows "\<exists>ts. l = acc @ map (element fresh) ts
     \<and> tagsFrom False (rest lx) = ts @ tagsFrom False (rest lx')"
  using assms
proof (induction rule: parse_tags_success_induct)
  case (stop acc lx)
  show ?case by (intro exI [of _ "[]"]) simp
next
  case (step acc lx lx1 acc2 lx2 l lx')
  let ?t = "getNextId (SPorHT lx)"
  from parse_commas_tags [OF step(3)] obtain ts1
    where ts1: "acc2 = add (setOptionTag ?t (setHeaderName SUPPORTED_name fresh)) acc
          @ map (element fresh) ts1"
      "tagsFrom False (rest (SPorHT lx1)) = ts1 @ tagsFrom False (rest lx2)"
    by blast
  from step.IH obtain ts2 where ts2: "l = acc2 @ map (element fresh) ts2"
    "tagsFrom False (rest lx2) = ts2 @ tagsFrom False (rest lx')"
    by blast
  have "tagsFrom False (rest lx) = (False, ?t) # tagsFrom False (rest (SPorHT lx1))"
    using step(2) by (rule tagsFrom_read_tag)
  with ts1(2) ts2(2)
  have "tagsFrom False (rest lx) = ((False, ?t) # ts1 @ ts2) @ tagsFrom False (rest lx')"
    by simp
  moreover from ts1(1) ts2(1) have "l = acc @ map (element fresh) ((False, ?t) # ts1 @ ts2)"
    by (simp add: add_def element_def)
  ultimately show ?case by blast
qed

text \<open>The value of the header, up to the newline, is what the loops have read.\<close>

lemma SupportedParser_parse_value:
  assumes "SupportedParser_parse_string fresh s = Some (Inr l, lx')"
  shows "\<exists>lx1 r. parse_tags fresh [] lx1 = Some (Inr l, lx')
     \<and> rest lx' = CHR ''\<newline>'' # r
     \<and> dropWhile isLWS (headerValue s @ CHR ''\<newline>'' # r) = rest lx1"
proof -
  let ?lx = "Lexer_new ''command_keywordLexer'' s"
  have lx: "rest ?lx = s" by (simp add: rest_def Lexer_new_def)
  from assms obtain lx1 where h: "headerName SUPPORTED ?lx = (Inr (), lx1)"
    and t: "parse_tags fresh [] lx1 = Some (Inr l, lx')"
    by (auto simp: SupportedParser_parse_string_def SupportedParser_parse_def
        split: prod.splits sum.splits)
  from headerName_success [OF h] obtain lxa lxb
    where ma: "match (Kind SUPPORTED) ?lx = (Inr (), lxa)"
      and mb: "match (Lit CHR '':'') lxa = (Inr (), lxb)"
      and lx1: "lx1 = SPorHT lxb"
    by blast
  let ?name = "getNextId ?lx"
  from match_Kind_rest [OF ma] match_Lit_rest [OF mb] lx
  have s: "?name @ CHR '':'' # rest lxb = s" by simp
  have "\<forall>c \<in> set ?name. isIdChar c" by (auto simp: getNextId_def dest: set_takeWhileD)
  with not_id_chars(3) have "\<forall>c \<in> set ?name. c \<noteq> CHR '':''" by auto
  then have tw: "takeWhile (\<lambda>c. c \<noteq> CHR '':'') (?name @ CHR '':'' # rest lxb) = ?name"
    by (simp add: takeWhile_tail)
  have c3: "drop (Suc (length (takeWhile (\<lambda>c. c \<noteq> CHR '':'') s))) s = rest lxb"
    using arg_cong [OF s, of "\<lambda>x. drop (Suc (length (takeWhile (\<lambda>c. c \<noteq> CHR '':'') x))) x"] tw
    by simp
  from parse_tags_input [OF t] obtain v where v: "rest lx1 = v @ rest lx'"
    "v = [] \<or> list_all someTags (splitOn CHR '','' v)"
    by blast
  from parse_tags_newline [OF t] obtain r where r: "rest lx' = CHR ''\<newline>'' # r"
    by (auto simp: lookAhead_rest)
  let ?w = "takeWhile isLWS (rest lxb)"
  from lx1 v r rest_SPorHT_split [of lxb]
  have after: "rest lxb = (?w @ v) @ CHR ''\<newline>'' # r" by simp
  have w: "list_all isLWS ?w" by (auto simp: list_all_iff dest: set_takeWhileD)
  with not_id_chars(5) have "CHR ''\<newline>'' \<notin> set ?w" by (auto simp: list_all_iff)
  moreover from v(2) have "CHR ''\<newline>'' \<notin> set v" by (auto dest: someTags_items_newline)
  ultimately have "\<forall>c \<in> set (?w @ v). c \<noteq> CHR ''\<newline>''" by auto
  then have tv: "takeWhile (\<lambda>c. c \<noteq> CHR ''\<newline>'') ((?w @ v) @ CHR ''\<newline>'' # r) = ?w @ v"
    by (simp only: takeWhile_tail [of "\<lambda>c. c \<noteq> CHR ''\<newline>''"] takeWhile_eq_all_conv [THEN iffD2] simp_thms)
  have hv: "headerValue s = ?w @ v"
    using arg_cong [OF after, of "takeWhile (\<lambda>c. c \<noteq> CHR ''\<newline>'')"] tv
    by (simp add: headerValue_def c3)
  have "dropWhile isLWS (headerValue s @ CHR ''\<newline>'' # r) = dropWhile isLWS (rest lxb)"
    using arg_cong [OF after, of "dropWhile isLWS"] by (simp only: hv)
  also have "\<dots> = rest lx1" by (simp add: lx1 rest_SPorHT)
  finally show ?thesis using t r by blast
qed

lemma SupportedParser_parse_elements:
  assumes "SupportedParser_parse_string fresh s = Some (Inr l, lx')"
  shows "l = map (element fresh) (tagsFrom False (headerValue s))"
proof -
  from SupportedParser_parse_value [OF assms] obtain lx1 r
    where t: "parse_tags fresh [] lx1 = Some (Inr l, lx')"
      and r: "rest lx' = CHR ''\<newline>'' # r"
      and v: "dropWhile isLWS (headerValue s @ CHR ''\<newline>'' # r) = rest lx1"
    by blast
  from parse_tags_tags [OF t] obtain ts where ts: "l = map (element fresh) ts"
    "tagsFrom False (rest lx1) = ts @ tagsFrom False (rest lx')"
    by auto
  from tagsFrom_stop [OF not_id_chars(2), of False "headerValue s" r] obtain a
    where a: "tagsFrom False (headerValue s @ CHR ''\<newline>'' # r)
        = tagsFrom False (headerValue s) @ tagsFrom a (CHR ''\<newline>'' # r)"
    by blast
  have "tagsFrom False (rest lx1) = tagsFrom False (headerValue s @ CHR ''\<newline>'' # r)"
    using tagsFrom_blank [of False "headerValue s @ CHR ''\<newline>'' # r"] by (simp only: v)
  with ts(2) a r
  have "ts @ tagsFrom False (CHR ''\<newline>'' # r)
      = tagsFrom False (headerValue s) @ tagsFrom a (CHR ''\<newline>'' # r)"
    by simp
  moreover have "length (tagsFrom False (CHR ''\<newline>'' # r)) = length (tagsFrom a (CHR ''\<newline>'' # r))"
    by (rule length_tagsFrom)
  ultimately have "ts = tagsFrom False (headerValue s)" by (simp add: append_eq_append_conv)
  with ts(1) show ?thesis by simp
qed

subsection \<open>Parser objects in the store\<close>

lemma construct_borrowed:
  assumes "r < length h"
  shows "construct cn (Obj r) h =
     (Inr \<lparr>classname = cn, lexer = Some r\<rparr>, h[r := (h ! r)\<lparr>currentLexerName := ''command_keywordLexer''\<rparr>])"
  using assms by (simp add: construct_def selectLexer_def)

lemma onLexer_own:
  assumes "f lx = Some (res, lx')"
  shows "onLexer f \<lparr>classname = cn, lexer = Some (length h)\<rparr> (h @ lx # h')
     = Some (res, h @ lx' # h')"
  using assms by (simp add: onLexer_def nth_append list_update_append)

section \<open>The claims\<close>


text \<open>
  C1. SupportedParser.parse should fail on every input that does not conform to
  \<open>header-name ':' [ option-tag *( ',' option-tag ) ]\<close>. It does not: on
  "Supported: 100rel timer\n", two option-tags with whitespace and no comma between them,
  the outer loop runs twice and parse returns the list of both.
\<close>

theorem SupportedParser_accepts_tags_without_comma:
  "\<not> conforms oneTag ''Supported: 100rel timer\<newline>''
   \<and> SupportedParser_parse_string \<lparr>headerName_field = None, optionTag = None\<rparr>
         ''Supported: 100rel timer\<newline>''
       = Some (Inr [\<lparr>headerName_field = Some ''Supported'', optionTag = Some ''100rel''\<rparr>,
                    \<lparr>headerName_field = Some ''Supported'', optionTag = Some ''timer''\<rparr>],
               \<lparr>buffer = ''Supported: 100rel timer\<newline>'', ptr = 23,
                 currentLexerName = ''command_keywordLexer'',
                 currentMatch = Some \<lparr>tokenType = ID, tokenValue = ''timer'', tokenOffset = 18\<rparr>\<rparr>)"
proof
  show "\<not> conforms oneTag ''Supported: 100rel timer\<newline>''"
    by (simp add: conforms_def oneTag_def optionTagList_def toLowerCase_def
        isLWS_def isIdChar_def isLetter_def isDigit_def)
  show "SupportedParser_parse_string \<lparr>headerName_field = None, optionTag = None\<rparr>
         ''Supported: 100rel timer\<newline>''
       = Some (Inr [\<lparr>headerName_field = Some ''Supported'', optionTag = Some ''100rel''\<rparr>,
                    \<lparr>headerName_field = Some ''Supported'', optionTag = Some ''timer''\<rparr>],
               \<lparr>buffer = ''Supported: 100rel timer\<newline>'', ptr = 23,
                 currentLexerName = ''command_keywordLexer'',
                 currentMatch = Some \<lparr>tokenType = ID, tokenValue = ''timer'', tokenOffset = 18\<rparr>\<rparr>)"
    by (simp add: lexer_defs supported_defs)
qed

text \<open>
  C1, as amended. SupportedParser.parse fails, and returns no list, on every input that
  does not conform to the grammar in which an item of the comma-separated list is one or
  more option-tags separated by whitespace: the header name "Supported" in any case, the
  colon, and up to the first newline either nothing but whitespace or items separated by
  commas, each made of option-tag characters and whitespace with at least one option-tag
  character.
\<close>

theorem SupportedParser_rejects_malformed:
  assumes "\<not> conforms someTags s"
  shows "\<exists>e lx. SupportedParser_parse_string fresh s = Some (Inl e, lx)"
proof -
  obtain res lx where r: "SupportedParser_parse_string fresh s = Some (res, lx)"
    using SupportedParser_parse_returns [of fresh "Lexer_new ''command_keywordLexer'' s"]
    by (auto simp: SupportedParser_parse_string_def)
  show ?thesis
  proof (cases res)
    case (Inl e)
    with r show ?thesis by blast
  next
    case (Inr l)
    with r assms SupportedParser_parse_conforms [of fresh s l lx] show ?thesis by simp
  qed
qed

theorem SupportedParser_rejects_malformed_witness:
  "\<not> conforms someTags ''Supported: 100rel,,timer\<newline>''
   \<and> (\<exists>e lx. SupportedParser_parse_string \<lparr>headerName_field = None, optionTag = None\<rparr>
         ''Supported: 100rel,,timer\<newline>'' = Some (Inl e, lx))"
proof -
  have n: "\<not> conforms someTags ''Supported: 100rel,,timer\<newline>''"
    by (simp add: conforms_def someTags_def optionTagList_def toLowerCase_def
        isLWS_def isIdChar_def isLetter_def isDigit_def)
  from SupportedParser_rejects_malformed [OF n] n show ?thesis by blast
qed

text \<open>
  C2. On success the cursor should land exactly after the terminating newline. The run of
  SupportedParser.parse on "Supported: 100rel\n" (18 characters, the newline at offset 17)
  succeeds with the cursor at offset 17: the newline is the lookahead and is not consumed.
\<close>

theorem SupportedParser_parse_leaves_newline:
  "\<exists>l lx. SupportedParser_parse_string fresh ''Supported: 100rel\<newline>'' = Some (Inr l, lx)
     \<and> ptr lx = 17 \<and> lookAhead 0 lx = Some CHR ''\<newline>''
     \<and> length (buffer lx) = 18"
  by (simp add: lexer_defs supported_defs)

text \<open>
  C3. SupportedParser.parse maps the conforming example inputs to the stated option-tag
  lists, in order: "Supported: 100rel\n" to ["100rel"], "Supported: 100rel, timer\n" to
  ["100rel", "timer"], and "Supported: \n" to the empty list.
\<close>

theorem SupportedParser_parse_examples:
  "(\<exists>l lx. SupportedParser_parse_string fresh ''Supported: 100rel\<newline>'' = Some (Inr l, lx)
       \<and> map optionTag l = [Some ''100rel''])
   \<and> (\<exists>l lx. SupportedParser_parse_string fresh ''Supported: 100rel, timer\<newline>'' = Some (Inr l, lx)
       \<and> map optionTag l = [Some ''100rel'', Some ''timer''])
   \<and> (\<exists>lx. SupportedParser_parse_string fresh ''Supported: \<newline>'' = Some (Inr [], lx))"
proof (intro conjI)
  show "\<exists>l lx. SupportedParser_parse_string fresh ''Supported: 100rel\<newline>'' = Some (Inr l, lx)
       \<and> map optionTag l = [Some ''100rel'']"
    by (simp add: lexer_defs supported_defs)
  show "\<exists>l lx. SupportedParser_parse_string fresh ''Supported: 100rel, timer\<newline>'' = Some (Inr l, lx)
       \<and> map optionTag l = [Some ''100rel'', Some ''timer'']"
    by (simp add: lexer_defs supported_defs)
  show "\<exists>lx. SupportedParser_parse_string fresh ''Supported: \<newline>'' = Some (Inr [], lx)"
    by (simp add: lexer_defs supported_defs)
qed

text \<open>
  C4. Parsing "Supported: ,timer\n", a leading comma with no option-tag before it, fails
  with an UnexpectedToken error whose offset is the offset of the comma (11); no list is
  returned.
\<close>

theorem SupportedParser_parse_leading_comma:
  "\<exists>e lx. SupportedParser_parse_string fresh ''Supported: ,timer\<newline>'' = Some (Inl e, lx)
     \<and> errorKind e = Some UnexpectedToken
     \<and> errorOffset e = Some 11
     \<and> ''Supported: ,timer\<newline>'' ! 11 = CHR '',''
     \<and> CHR '','' \<notin> set (take 11 ''Supported: ,timer\<newline>'')"
  by (simp add: lexer_defs supported_defs)

text \<open>
  C5. Each parser first matches the header-name token, case-insensitively, against its
  keyword (Supported, Authorization, To). When the token, in lower case, is not the
  keyword, parse fails with HeaderNameMismatch and the lexer is as it was: nothing of the
  value was consumed. When it is the keyword, in whatever case, the match succeeds and
  consumes it, and parse is what the rest of the parser does from the lexer after that
  match: the colon and the whitespace, then the value.
\<close>

theorem header_name_is_matched_first:
  assumes "currentLexerName lx = ''command_keywordLexer''"
  shows "(map toLowerCase (getNextId lx) \<noteq> ''supported'' \<longrightarrow>
            (\<exists>e. SupportedParser_parse fresh lx = Some (Inl e, lx)
                \<and> errorKind e = Some HeaderNameMismatch))
     \<and> (map toLowerCase (getNextId lx) \<noteq> ''authorization'' \<longrightarrow>
            (\<exists>e. AuthorizationParser_parse lx = Some (Inl e, lx)
                \<and> errorKind e = Some HeaderNameMismatch))
     \<and> (map toLowerCase (getNextId lx) \<noteq> ''to'' \<longrightarrow>
            (\<exists>e. ToParser_parse addressParser lx = Some (Inl e, lx)
                \<and> errorKind e = Some HeaderNameMismatch))
     \<and> (map toLowerCase (getNextId lx) = ''supported'' \<longrightarrow>
            (\<exists>lx1. match (Kind SUPPORTED) lx = (Inr (), lx1) \<and> ptr lx1 = ptr lx + 9
               \<and> SupportedParser_parse fresh lx =
                   (case match (Lit CHR '':'') lx1 of
                      (Inl e, lx2) \<Rightarrow> Some (Inl (asHeaderNameMismatch e), lx2)
                    | (Inr _, lx2) \<Rightarrow> parse_tags fresh [] (SPorHT lx2))))
     \<and> (map toLowerCase (getNextId lx) = ''authorization'' \<longrightarrow>
            (\<exists>lx1. match (Kind AUTHORIZATION) lx = (Inr (), lx1) \<and> ptr lx1 = ptr lx + 13
               \<and> AuthorizationParser_parse lx =
                   (case match (Lit CHR '':'') lx1 of
                      (Inl e, lx2) \<Rightarrow> Some (Inl (asHeaderNameMismatch e), lx2)
                    | (Inr _, lx2) \<Rightarrow> ChallengeParser_parse Authorization_new (SPorHT lx2))))
     \<and> (map toLowerCase (getNextId lx) = ''to'' \<longrightarrow>
            (\<exists>lx1. match (Kind TO) lx = (Inr (), lx1) \<and> ptr lx1 = ptr lx + 2
               \<and> ToParser_parse addressParser lx =
                   (case match (Lit CHR '':'') lx1 of
                      (Inl e, lx2) \<Rightarrow> Some (Inl (asHeaderNameMismatch e), lx2)
                    | (Inr _, lx2) \<Rightarrow>
                        (case AddressParametersParser_parse addressParser To_new (SPorHT lx2) of
                           None \<Rightarrow> None
                         | Some (Inl e, lx3) \<Rightarrow> Some (Inl e, lx3)
                         | Some (Inr to, lx3) \<Rightarrow>
                             (case match (Lit CHR ''\<newline>'') lx3 of
                                (Inl e, lx4) \<Rightarrow> Some (Inl e, lx4)
                              | (Inr _, lx4) \<Rightarrow> Some (Inr to, lx4))))))"
proof (intro conjI impI)
  assume "map toLowerCase (getNextId lx) \<noteq> ''supported''"
  with match_keyword_iff(1) [OF assms] headerName_mismatch [of SUPPORTED lx]
  show "\<exists>e. SupportedParser_parse fresh lx = Some (Inl e, lx) \<and> errorKind e = Some HeaderNameMismatch"
    by (auto simp: SupportedParser_parse_def)
next
  assume "map toLowerCase (getNextId lx) \<noteq> ''authorization''"
  with match_keyword_iff(2) [OF assms] headerName_mismatch [of AUTHORIZATION lx]
  show "\<exists>e. AuthorizationParser_parse lx = Some (Inl e, lx) \<and> errorKind e = Some HeaderNameMismatch"
    by (auto simp: AuthorizationParser_parse_def)
next
  assume "map toLowerCase (getNextId lx) \<noteq> ''to''"
  with match_keyword_iff(3) [OF assms] headerName_mismatch [of TO lx]
  show "\<exists>e. ToParser_parse addressParser lx = Some (Inl e, lx) \<and> errorKind e = Some HeaderNameMismatch"
    by (auto simp: ToParser_parse_def)
next
  assume a: "map toLowerCase (getNextId lx) = ''supported''"
  then have "length (map toLowerCase (getNextId lx)) = 9" by simp
  then have l: "length (getNextId lx) = 9" by simp
  from a match_keyword_iff(1) [OF assms] obtain lx1
    where m: "match (Kind SUPPORTED) lx = (Inr (), lx1)" by auto
  from match_Kind_result [OF m] l have p: "ptr lx1 = ptr lx + 9" by simp
  have "SupportedParser_parse fresh lx =
      (case match (Lit CHR '':'') lx1 of
         (Inl e, lx2) \<Rightarrow> Some (Inl (asHeaderNameMismatch e), lx2)
       | (Inr _, lx2) \<Rightarrow> parse_tags fresh [] (SPorHT lx2))"
    by (simp add: SupportedParser_parse_def headerName_def m split: prod.splits sum.splits)
  with m p show "\<exists>lx1. match (Kind SUPPORTED) lx = (Inr (), lx1) \<and> ptr lx1 = ptr lx + 9
      \<and> SupportedParser_parse fresh lx =
          (case match (Lit CHR '':'') lx1 of
             (Inl e, lx2) \<Rightarrow> Some (Inl (asHeaderNameMismatch e), lx2)
           | (Inr _, lx2) \<Rightarrow> parse_tags fresh [] (SPorHT lx2))"
    by blast
next
  assume a: "map toLowerCase (getNextId lx) = ''authorization''"
  then have "length (map toLowerCase (getNextId lx)) = 13" by simp
  then have l: "length (getNextId lx) = 13" by simp
  from a match_keyword_iff(2) [OF assms] obtain lx1
    where m: "match (Kind AUTHORIZATION) lx = (Inr (), lx1)" by auto
  from match_Kind_result [OF m] l have p: "ptr lx1 = ptr lx + 13" by simp
  have "AuthorizationParser_parse lx =
      (case match (Lit CHR '':'') lx1 of
         (Inl e, lx2) \<Rightarrow> Some (Inl (asHeaderNameMismatch e), lx2)
       | (Inr _, lx2) \<Rightarrow> ChallengeParser_parse Authorization_new (SPorHT lx2))"
    by (simp add: AuthorizationParser_parse_def headerName_def m split: prod.splits sum.splits)
  with m p show "\<exists>lx1. match (Kind AUTHORIZATION) lx = (Inr (), lx1) \<and> ptr lx1 = ptr lx + 13
      \<and> AuthorizationParser_parse lx =
          (case match (Lit CHR '':'') lx1 of
             (Inl e, lx2) \<Rightarrow> Some (Inl (asHeaderNameMismatch e), lx2)
           | (Inr _, lx2) \<Rightarrow> ChallengeParser_parse Authorization_new (SPorHT lx2))"
    by blast
next
  assume a: "map toLowerCase (getNextId lx) = ''to''"
  then have "length (map toLowerCase (getNextId lx)) = 2" by simp
  then have l: "length (getNextId lx) = 2" by simp
  from a match_keyword_iff(3) [OF assms] obtain lx1
    where m: "match (Kind TO) lx = (Inr (), lx1)" by auto
  from match_Kind_result [OF m] l have p: "ptr lx1 = ptr lx + 2" by simp
  have "ToParser_parse addressParser lx =
      (case match (Lit CHR '':'') lx1 of
         (Inl e, lx2) \<Rightarrow> Some (Inl (asHeaderNameMismatch e), lx2)
       | (Inr _, lx2) \<Rightarrow>
           (case AddressParametersParser_parse addressParser To_new (SPorHT lx2) of
              None \<Rightarrow> None
            | Some (Inl e, lx3) \<Rightarrow> Some (Inl e, lx3)
            | Some (Inr to, lx3) \<Rightarrow>
                (case match (Lit CHR ''\<newline>'') lx3 of
                   (Inl e, lx4) \<Rightarrow> Some (Inl e, lx4)
                 | (Inr _, lx4) \<Rightarrow> Some (Inr to, lx4))))"
    by (simp add: ToParser_parse_def headerName_def m split: prod.splits sum.splits)
  with m p show "\<exists>lx1. match (Kind TO) lx = (Inr (), lx1) \<and> ptr lx1 = ptr lx + 2
      \<and> ToParser_parse addressParser lx =
          (case match (Lit CHR '':'') lx1 of
             (Inl e, lx2) \<Rightarrow> Some (Inl (asHeaderNameMismatch e), lx2)
           | (Inr _, lx2) \<Rightarrow>
               (case AddressParametersParser_parse addressParser To_new (SPorHT lx2) of
                  None \<Rightarrow> None
                | Some (Inl e, lx3) \<Rightarrow> Some (Inl e, lx3)
                | Some (Inr to, lx3) \<Rightarrow>
                    (case match (Lit CHR ''\<newline>'') lx3 of
                       (Inl e, lx4) \<Rightarrow> Some (Inl e, lx4)
                     | (Inr _, lx4) \<Rightarrow> Some (Inr to, lx4))))"
    by blast
qed

theorem header_name_is_matched_first_witness:
  "(currentLexerName (Lexer_new ''command_keywordLexer'' ''sUPPORTED: a\<newline>'') = ''command_keywordLexer''
    \<and> map toLowerCase (getNextId (Lexer_new ''command_keywordLexer'' ''sUPPORTED: a\<newline>'')) = ''supported''
    \<and> (\<exists>lx1. match (Kind SUPPORTED) (Lexer_new ''command_keywordLexer'' ''sUPPORTED: a\<newline>'') = (Inr (), lx1)
           \<and> ptr lx1 = 9
           \<and> SupportedParser_parse \<lparr>headerName_field = None, optionTag = None\<rparr>
                (Lexer_new ''command_keywordLexer'' ''sUPPORTED: a\<newline>'') =
               (case match (Lit CHR '':'') lx1 of
                  (Inl e, lx2) \<Rightarrow> Some (Inl (asHeaderNameMismatch e), lx2)
                | (Inr _, lx2) \<Rightarrow>
                    parse_tags \<lparr>headerName_field = None, optionTag = None\<rparr> [] (SPorHT lx2)))
    \<and> (\<exists>e. AuthorizationParser_parse (Lexer_new ''command_keywordLexer'' ''sUPPORTED: a\<newline>'')
            = Some (Inl e, Lexer_new ''command_keywordLexer'' ''sUPPORTED: a\<newline>'')
           \<and> errorKind e = Some HeaderNameMismatch)
    \<and> (\<exists>e. ToParser_parse (\<lambda>lx. Some (Inr CHR ''x'', consume 1 lx))
              (Lexer_new ''command_keywordLexer'' ''sUPPORTED: a\<newline>'')
            = Some (Inl e, Lexer_new ''command_keywordLexer'' ''sUPPORTED: a\<newline>'')
           \<and> errorKind e = Some HeaderNameMismatch))
   \<and> SupportedParser_parse \<lparr>headerName_field = None, optionTag = None\<rparr>
         (Lexer_new ''command_keywordLexer'' ''sUPPORTED: a\<newline>'')
       = Some (Inr [\<lparr>headerName_field = Some ''Supported'', optionTag = Some ''a''\<rparr>],
               \<lparr>buffer = ''sUPPORTED: a\<newline>'', ptr = 12,
                 currentLexerName = ''command_keywordLexer'',
                 currentMatch = Some \<lparr>tokenType = ID, tokenValue = ''a'', tokenOffset = 11\<rparr>\<rparr>)
   \<and> (\<exists>lx1. match (Kind AUTHORIZATION) (Lexer_new ''command_keywordLexer'' ''AUTHORIZATION: Digest a=b'')
              = (Inr (), lx1)
          \<and> ptr lx1 = 13
          \<and> AuthorizationParser_parse (Lexer_new ''command_keywordLexer'' ''AUTHORIZATION: Digest a=b'') =
              (case match (Lit CHR '':'') lx1 of
                 (Inl e, lx2) \<Rightarrow> Some (Inl (asHeaderNameMismatch e), lx2)
               | (Inr _, lx2) \<Rightarrow> ChallengeParser_parse Authorization_new (SPorHT lx2)))
   \<and> AuthorizationParser_parse (Lexer_new ''command_keywordLexer'' ''AUTHORIZATION: Digest a=b'')
       = Some (Inr \<lparr>scheme = Some ''Digest'', authParameters = [(''a'', ''b'')]\<rparr>,
               \<lparr>buffer = ''AUTHORIZATION: Digest a=b'', ptr = 25,
                 currentLexerName = ''command_keywordLexer'',
                 currentMatch = Some \<lparr>tokenType = ID, tokenValue = ''b'', tokenOffset = 24\<rparr>\<rparr>)
   \<and> (\<exists>e. SupportedParser_parse \<lparr>headerName_field = None, optionTag = None\<rparr>
             (Lexer_new ''command_keywordLexer'' ''tO: x\<newline>'')
           = Some (Inl e, Lexer_new ''command_keywordLexer'' ''tO: x\<newline>'')
          \<and> errorKind e = Some HeaderNameMismatch)
   \<and> (\<exists>lx1. match (Kind TO) (Lexer_new ''command_keywordLexer'' ''tO: x\<newline>'') = (Inr (), lx1)
          \<and> ptr lx1 = 2)
   \<and> ToParser_parse (\<lambda>lx. Some (Inr CHR ''x'', consume 1 lx))
         (Lexer_new ''command_keywordLexer'' ''tO: x\<newline>'')
       = Some (Inr \<lparr>address = Some CHR ''x'', parameters = []\<rparr>,
               \<lparr>buffer = ''tO: x\<newline>'', ptr = 6,
                 currentLexerName = ''command_keywordLexer'',
                 currentMatch = Some \<lparr>tokenType = TO, tokenValue = ''tO'', tokenOffset = 0\<rparr>\<rparr>)"
proof -
  let ?s = "Lexer_new ''command_keywordLexer'' ''sUPPORTED: a\<newline>''"
  let ?a = "Lexer_new ''command_keywordLexer'' ''AUTHORIZATION: Digest a=b''"
  let ?t = "Lexer_new ''command_keywordLexer'' ''tO: x\<newline>''"
  let ?blank = "\<lparr>headerName_field = None, optionTag = None\<rparr>"
  let ?ap = "\<lambda>lx. Some (Inr CHR ''x'', consume 1 lx)"
  have c: "currentLexerName ?s = ''command_keywordLexer''"
    "currentLexerName ?a = ''command_keywordLexer''"
    "currentLexerName ?t = ''command_keywordLexer''"
    by (simp_all add: Lexer_new_def)
  have n: "map toLowerCase (getNextId ?s) = ''supported''"
    "map toLowerCase (getNextId ?a) = ''authorization''"
    "map toLowerCase (getNextId ?t) = ''to''"
    by (simp_all add: lexer_defs)
  have p: "ptr ?s = 0" "ptr ?a = 0" "ptr ?t = 0"
    by (simp_all add: Lexer_new_def)
  from header_name_is_matched_first [OF c(1), of ?blank ?ap] c(1) n(1) p(1)
  have s: "currentLexerName ?s = ''command_keywordLexer''
    \<and> map toLowerCase (getNextId ?s) = ''supported''
    \<and> (\<exists>lx1. match (Kind SUPPORTED) ?s = (Inr (), lx1) \<and> ptr lx1 = 9
           \<and> SupportedParser_parse ?blank ?s =
               (case match (Lit CHR '':'') lx1 of
                  (Inl e, lx2) \<Rightarrow> Some (Inl (asHeaderNameMismatch e), lx2)
                | (Inr _, lx2) \<Rightarrow> parse_tags ?blank [] (SPorHT lx2)))
    \<and> (\<exists>e. AuthorizationParser_parse ?s = Some (Inl e, ?s) \<and> errorKind e = Some HeaderNameMismatch)
    \<and> (\<exists>e. ToParser_parse ?ap ?s = Some (Inl e, ?s) \<and> errorKind e = Some HeaderNameMismatch)"
    by simp
  have r1: "SupportedParser_parse ?blank ?s
       = Some (Inr [\<lparr>headerName_field = Some ''Supported'', optionTag = Some ''a''\<rparr>],
               \<lparr>buffer = ''sUPPORTED: a\<newline>'', ptr = 12,
                 currentLexerName = ''command_keywordLexer'',
                 currentMatch = Some \<lparr>tokenType = ID, tokenValue = ''a'', tokenOffset = 11\<rparr>\<rparr>)"
    by (simp add: lexer_defs supported_defs)
  from header_name_is_matched_first [OF c(2), of ?blank ?ap] n(2) p(2)
  have a: "\<exists>lx1. match (Kind AUTHORIZATION) ?a = (Inr (), lx1) \<and> ptr lx1 = 13
          \<and> AuthorizationParser_parse ?a =
              (case match (Lit CHR '':'') lx1 of
                 (Inl e, lx2) \<Rightarrow> Some (Inl (asHeaderNameMismatch e), lx2)
               | (Inr _, lx2) \<Rightarrow> ChallengeParser_parse Authorization_new (SPorHT lx2))"
    by simp
  have r4: "AuthorizationParser_parse ?a
       = Some (Inr \<lparr>scheme = Some ''Digest'', authParameters = [(''a'', ''b'')]\<rparr>,
               \<lparr>buffer = ''AUTHORIZATION: Digest a=b'', ptr = 25,
                 currentLexerName = ''command_keywordLexer'',
                 currentMatch = Some \<lparr>tokenType = ID, tokenValue = ''b'', tokenOffset = 24\<rparr>\<rparr>)"
    by (simp add: lexer_defs authorization_defs Let_def)
  from header_name_is_matched_first [OF c(3), of ?blank ?ap] n(3) p(3)
  have t0: "\<exists>e. SupportedParser_parse ?blank ?t = Some (Inl e, ?t)
          \<and> errorKind e = Some HeaderNameMismatch"
    and t: "\<exists>lx1. match (Kind TO) ?t = (Inr (), lx1) \<and> ptr lx1 = 2"
    by (auto simp: numeral_2_eq_2)
  have r5: "ToParser_parse ?ap ?t
       = Some (Inr \<lparr>address = Some CHR ''x'', parameters = []\<rparr>,
               \<lparr>buffer = ''tO: x\<newline>'', ptr = 6,
                 currentLexerName = ''command_keywordLexer'',
                 currentMatch = Some \<lparr>tokenType = TO, tokenValue = ''tO'', tokenOffset = 0\<rparr>\<rparr>)"
    by (simp add: lexer_defs ToParser_parse_def AddressParametersParser_parse_def
        address_params.simps To_new_def)
  from s r1 a r4 t0 t r5 show ?thesis by - (rule conjI, assumption, intro conjI, assumption+)
qed

text \<open>
  C6. Parsing the Authorization example succeeds with the auth-scheme "Digest" and the
  auth-parameters [("realm","example.com"), ("nonce","abc123")], in that order.
\<close>

theorem AuthorizationParser_parse_example:
  \<open>\<exists>lx. AuthorizationParser_parse_string
           ''Authorization: Digest realm="example.com", nonce="abc123"\<newline>''
     = Some (Inr \<lparr>scheme = Some ''Digest'',
                  authParameters = [(''realm'', ''example.com''), (''nonce'', ''abc123'')]\<rparr>, lx)\<close>
  by (simp add: lexer_defs authorization_defs)

text \<open>
  C7. SupportedParser.parse returns, with a list or with a failure, on every input string
  and from every state of a borrowed lexer, and the cursor never moves back. Each
  iteration of its two loops either fails or goes on from a cursor that is strictly
  further in the same finite buffer (\<open>parse_commas_progress\<close>, \<open>parse_tags_progress\<close>).
\<close>

theorem SupportedParser_parse_terminates:
  "(\<exists>res lx'. SupportedParser_parse_string fresh s = Some (res, lx'))
   \<and> (\<exists>res lx'. SupportedParser_parse fresh lx = Some (res, lx')
          \<and> buffer lx' = buffer lx \<and> ptr lx \<le> ptr lx')"
  using SupportedParser_parse_returns [of fresh "Lexer_new ''command_keywordLexer'' s"]
    SupportedParser_parse_returns [of fresh lx]
  by (auto simp: SupportedParser_parse_string_def)

text \<open>
  C8. Two SupportedParser objects constructed from the same string own two different lexer
  objects, and parse on the one and then on the other returns the same result: the same
  failure, or the same list.
\<close>

theorem two_parsers_same_result:
  "\<exists>this1 h1 this2 h2 res h3 h4.
     SupportedParser_new (Str s) h = (Inr this1, h1)
     \<and> SupportedParser_new (Str s) h1 = (Inr this2, h2)
     \<and> lexer this1 \<noteq> lexer this2
     \<and> SupportedParser_prototype_parse fresh this1 h2 = Some (res, h3)
     \<and> SupportedParser_prototype_parse fresh this2 h3 = Some (res, h4)"
proof -
  let ?lx = "Lexer_new ''command_keywordLexer'' s"
  obtain res lx' where p: "SupportedParser_parse fresh ?lx = Some (res, lx')"
    using SupportedParser_parse_returns [of fresh ?lx] by blast
  let ?this1 = "\<lparr>classname = ''SupportedParser'', lexer = Some (length h)\<rparr>"
  let ?this2 = "\<lparr>classname = ''SupportedParser'', lexer = Some (length (h @ [?lx]))\<rparr>"
  have c1: "SupportedParser_new (Str s) h = (Inr ?this1, h @ [?lx])"
    by (simp add: SupportedParser_new_def construct_def)
  have c2: "SupportedParser_new (Str s) (h @ [?lx]) = (Inr ?this2, (h @ [?lx]) @ [?lx])"
    by (simp add: SupportedParser_new_def construct_def)
  have p1: "SupportedParser_prototype_parse fresh ?this1 ((h @ [?lx]) @ [?lx])
      = Some (res, h @ lx' # [?lx])"
    using onLexer_own [of "SupportedParser_parse fresh" ?lx res lx' "''SupportedParser''" h "[?lx]", OF p]
    by (simp add: SupportedParser_prototype_parse_def)
  have p2: "SupportedParser_prototype_parse fresh ?this2 (h @ lx' # [?lx])
      = Some (res, (h @ [lx']) @ lx' # [])"
    using onLexer_own [of "SupportedParser_parse fresh" ?lx res lx' "''SupportedParser''" "h @ [lx']" "[]", OF p]
    by (simp add: SupportedParser_prototype_parse_def)
  have d: "lexer ?this1 \<noteq> lexer ?this2" by simp
  from c1 c2 d p1 p2 show ?thesis by blast
qed

text \<open>
  C9. The element of a tag after a comma should carry no header name. The inner loop does
  not set one, but the element is a \<open>new Supported()\<close>, and carries the header name its
  constructor gave it: with a constructor that sets the header name to "Supported", the
  element of "timer" in "Supported: 100rel, timer\n" carries the header name "Supported".
\<close>

theorem element_after_comma_keeps_constructor_name:
  "SupportedParser_parse_string \<lparr>headerName_field = Some ''Supported'', optionTag = None\<rparr>
      ''Supported: 100rel, timer\<newline>''
    = Some (Inr [\<lparr>headerName_field = Some ''Supported'', optionTag = Some ''100rel''\<rparr>,
                 \<lparr>headerName_field = Some ''Supported'', optionTag = Some ''timer''\<rparr>],
            \<lparr>buffer = ''Supported: 100rel, timer\<newline>'', ptr = 24,
              currentLexerName = ''command_keywordLexer'',
              currentMatch = Some \<lparr>tokenType = ID, tokenValue = ''timer'', tokenOffset = 19\<rparr>\<rparr>)
   \<and> headerName_field \<lparr>headerName_field = Some ''Supported'', optionTag = Some ''timer''\<rparr>
       = Some ''Supported''"
  by (simp add: lexer_defs supported_defs)

text \<open>
  C9, as amended. The list of a successful SupportedParser.parse has one element for each
  option-tag of the header value, in order: for a tag that follows a comma, a
  \<open>new Supported()\<close> with its option-tag set and nothing else; for every other tag, the
  first of each pass of the outer loop, a \<open>new Supported()\<close> with the header name set to
  "Supported" and its option-tag set. So the elements after a comma carry no header name
  exactly when \<open>new Supported()\<close> carries none. Every element the inner loop appends is a
  \<open>new Supported()\<close> with only its option-tag set, and for "Supported: 100rel, timer\n"
  the element of "timer" has the header name of a \<open>new Supported()\<close>.
\<close>

theorem inner_loop_never_sets_header_name:
  "(SupportedParser_parse_string fresh s = Some (Inr l, lx') \<longrightarrow>
      l = map (element fresh) (tagsFrom False (headerValue s))
      \<and> (headerName_field fresh = None \<longrightarrow>
            map headerName_field l
              = map (\<lambda>p. if fst p then None else Some ''Supported'') (tagsFrom False (headerValue s))))
   \<and> (parse_commas fresh acc lxa = Some (Inr la, lxa') \<longrightarrow>
        (\<exists>ts. la = acc @ map (\<lambda>t. setOptionTag t fresh) ts))
   \<and> (\<exists>lx'. SupportedParser_parse_string fresh ''Supported: 100rel, timer\<newline>''
         = Some (Inr [setOptionTag ''100rel'' (setHeaderName ''Supported'' fresh),
                      setOptionTag ''timer'' fresh], lx'))
   \<and> headerName_field (setOptionTag ''timer'' fresh) = headerName_field fresh"
proof (intro conjI impI)
  assume a: "SupportedParser_parse_string fresh s = Some (Inr l, lx')"
  then show e: "l = map (element fresh) (tagsFrom False (headerValue s))"
    by (rule SupportedParser_parse_elements)
  assume "headerName_field fresh = None"
  then have "\<And>p. headerName_field (element fresh p) = (if fst p then None else Some ''Supported'')"
    by (simp add: element_def setOptionTag_def setHeaderName_def SUPPORTED_name_def)
  with e show "map headerName_field l
      = map (\<lambda>p. if fst p then None else Some ''Supported'') (tagsFrom False (headerValue s))"
    by simp
next
  assume "parse_commas fresh acc lxa = Some (Inr la, lxa')"
  then show "\<exists>ts. la = acc @ map (\<lambda>t. setOptionTag t fresh) ts"
    by (rule parse_commas_elements)
next
  show "\<exists>lx'. SupportedParser_parse_string fresh ''Supported: 100rel, timer\<newline>''
         = Some (Inr [setOptionTag ''100rel'' (setHeaderName ''Supported'' fresh),
                      setOptionTag ''timer'' fresh], lx')"
    by (simp add: lexer_defs supported_defs)
next
  show "headerName_field (setOptionTag ''timer'' fresh) = headerName_field fresh"
    by (simp add: setOptionTag_def)
qed

theorem inner_loop_never_sets_header_name_witness:
  "SupportedParser_parse_string \<lparr>headerName_field = None, optionTag = None\<rparr>
      ''Supported: 100rel, timer\<newline>''
    = Some (Inr [\<lparr>headerName_field = Some ''Supported'', optionTag = Some ''100rel''\<rparr>,
                 \<lparr>headerName_field = None, optionTag = Some ''timer''\<rparr>],
            \<lparr>buffer = ''Supported: 100rel, timer\<newline>'', ptr = 24,
              currentLexerName = ''command_keywordLexer'',
              currentMatch = Some \<lparr>tokenType = ID, tokenValue = ''timer'', tokenOffset = 19\<rparr>\<rparr>)
   \<and> headerName_field \<lparr>headerName_field = None, optionTag = None\<rparr> = None
   \<and> tagsFrom False (headerValue ''Supported: 100rel, timer\<newline>'')
       = [(False, ''100rel''), (True, ''timer'')]
   \<and> [\<lparr>headerName_field = Some ''Supported'', optionTag = Some ''100rel''\<rparr>,
       \<lparr>headerName_field = None, optionTag = Some ''timer''\<rparr>]
       = map (element \<lparr>headerName_field = None, optionTag = None\<rparr>)
           (tagsFrom False (headerValue ''Supported: 100rel, timer\<newline>''))
   \<and> map headerName_field
         [\<lparr>headerName_field = Some ''Supported'', optionTag = Some ''100rel''\<rparr>,
          \<lparr>headerName_field = None, optionTag = Some ''timer''\<rparr>]
       = map (\<lambda>p. if fst p then None else Some ''Supported'')
           (tagsFrom False (headerValue ''Supported: 100rel, timer\<newline>''))
   \<and> parse_commas \<lparr>headerName_field = None, optionTag = None\<rparr> []
         \<lparr>buffer = '',timer\<newline>'', ptr = 0, currentLexerName = ''command_keywordLexer'',
           currentMatch = None\<rparr>
       = Some (Inr [\<lparr>headerName_field = None, optionTag = Some ''timer''\<rparr>],
               \<lparr>buffer = '',timer\<newline>'', ptr = 6, currentLexerName = ''command_keywordLexer'',
                 currentMatch = Some \<lparr>tokenType = ID, tokenValue = ''timer'', tokenOffset = 1\<rparr>\<rparr>)
   \<and> (\<exists>ts. [\<lparr>headerName_field = None, optionTag = Some ''timer''\<rparr>]
          = [] @ map (\<lambda>t. setOptionTag t \<lparr>headerName_field = None, optionTag = None\<rparr>) ts)"
proof -
  let ?blank = "\<lparr>headerName_field = None, optionTag = None\<rparr>"
  let ?s = "''Supported: 100rel, timer\<newline>''"
  let ?l = "[\<lparr>headerName_field = Some ''Supported'', optionTag = Some ''100rel''\<rparr>,
             \<lparr>headerName_field = None, optionTag = Some ''timer''\<rparr>]"
  let ?lx = "\<lparr>buffer = '',timer\<newline>'', ptr = 0, currentLexerName = ''command_keywordLexer'',
           currentMatch = None\<rparr>"
  let ?lx' = "\<lparr>buffer = '',timer\<newline>'', ptr = 6, currentLexerName = ''command_keywordLexer'',
           currentMatch = Some \<lparr>tokenType = ID, tokenValue = ''timer'', tokenOffset = 1\<rparr>\<rparr>"
  have run: "SupportedParser_parse_string ?blank ?s
    = Some (Inr ?l,
            \<lparr>buffer = ''Supported: 100rel, timer\<newline>'', ptr = 24,
              currentLexerName = ''command_keywordLexer'',
              currentMatch = Some \<lparr>tokenType = ID, tokenValue = ''timer'', tokenOffset = 19\<rparr>\<rparr>)"
    by (simp add: lexer_defs supported_defs)
  have none: "headerName_field ?blank = None" by simp
  have tags: "tagsFrom False (headerValue ?s) = [(False, ''100rel''), (True, ''timer'')]"
    by (simp add: headerValue_def isIdChar_def isLetter_def isDigit_def)
  have inner: "parse_commas ?blank [] ?lx
       = Some (Inr [\<lparr>headerName_field = None, optionTag = Some ''timer''\<rparr>], ?lx')"
    by (simp add: lexer_defs supported_defs)
  note inst = inner_loop_never_sets_header_name
    [where fresh = ?blank and s = ?s and l = ?l and acc = "[]" and lxa = ?lx
       and la = "[\<lparr>headerName_field = None, optionTag = Some ''timer''\<rparr>]" and lxa' = ?lx']
  from inst run
  have elements: "?l = map (element ?blank) (tagsFrom False (headerValue ?s))"
    by blast
  from inst run none
  have names: "map headerName_field ?l
       = map (\<lambda>p. if fst p then None else Some ''Supported'') (tagsFrom False (headerValue ?s))"
    by blast
  from inst inner
  have appended: "\<exists>ts. [\<lparr>headerName_field = None, optionTag = Some ''timer''\<rparr>]
          = [] @ map (\<lambda>t. setOptionTag t ?blank) ts"
    by blast
  from run none tags elements names inner appended show ?thesis
    by - (intro conjI, assumption+)
qed

text \<open>
  C10. Constructing any of the three parsers with a lexer object of the store succeeds,
  keeps a reference to that same object, sets its context to "command_keywordLexer"
  whatever it was, and changes nothing else: cursor, buffer and the other objects stay.
\<close>

theorem constructors_select_command_keywordLexer:
  assumes "r < length h"
  shows "(\<exists>this h'. SupportedParser_new (Obj r) h = (Inr this, h') \<and> lexer this = Some r
            \<and> h' = h[r := (h ! r)\<lparr>currentLexerName := ''command_keywordLexer''\<rparr>])
     \<and> (\<exists>this h'. AuthorizationParser_new (Obj r) h = (Inr this, h') \<and> lexer this = Some r
            \<and> h' = h[r := (h ! r)\<lparr>currentLexerName := ''command_keywordLexer''\<rparr>])
     \<and> (\<exists>this h'. ToParser_new (Obj r) h = (Inr this, h') \<and> lexer this = Some r
            \<and> h' = h[r := (h ! r)\<lparr>currentLexerName := ''command_keywordLexer''\<rparr>])
     \<and> currentLexerName (h[r := (h ! r)\<lparr>currentLexerName := ''command_keywordLexer''\<rparr>] ! r)
          = ''command_keywordLexer''
     \<and> ptr (h[r := (h ! r)\<lparr>currentLexerName := ''command_keywordLexer''\<rparr>] ! r) = ptr (h ! r)
     \<and> buffer (h[r := (h ! r)\<lparr>currentLexerName := ''command_keywordLexer''\<rparr>] ! r) = buffer (h ! r)"
  using assms
  by (simp add: SupportedParser_new_def AuthorizationParser_new_def ToParser_new_def
      construct_borrowed)

theorem constructors_select_command_keywordLexer_witness:
  "SupportedParser_new (Obj 0)
     [\<lparr>buffer = ''To: x'', ptr = 4, currentLexerName = ''method_keywordLexer'', currentMatch = None\<rparr>]
   = (Inr \<lparr>classname = ''SupportedParser'', lexer = Some 0\<rparr>,
      [\<lparr>buffer = ''To: x'', ptr = 4, currentLexerName = ''command_keywordLexer'', currentMatch = None\<rparr>])"
  using constructors_select_command_keywordLexer [of 0
     "[\<lparr>buffer = ''To: x'', ptr = 4, currentLexerName = ''method_keywordLexer'', currentMatch = None\<rparr>]"]
  by (simp add: SupportedParser_new_def construct_def selectLexer_def)

end
